theory Spec2Isabelle
  imports Complex_Main "HOL-Library.Log_Nat" "HOL-Library.Multiset"
begin

section \<open>Errors\<close>

text \<open>
  The exceptions that the transfer module can let escape.  \<open>ClientError\<close> stands for any
  failure reported by the S3 client; the module itself never raises it.
\<close>

datatype error =
    ZeroDivisionError
  | OverflowError
  | ValueError
  | OSError
  | ClientError string

section \<open>Python floats\<close>

text \<open>
  \<open>transfer.py\<close> computes the number of parts as
  \<^verbatim>\<open>int(math.ceil(size / float(part_size)))\<close>, that is in binary64 arithmetic.  A finite
  binary64 value is a rational number; \<open>float_round\<close> maps a rational to the nearest
  binary64 value, ties to the even significand: 53 significant bits for a normal number,
  multiples of \<open>2 powi - 1074\<close> below \<open>2 powi - 1022\<close>.  Values of magnitude \<open>2 ^ 1024\<close>
  and above stand for overflow.
\<close>

definition ilog2 :: "rat \<Rightarrow> int" where
  "ilog2 x = (case quotient_of x of (a, b) \<Rightarrow>
     let e0 = bitlen a - bitlen b in if power_int 2 e0 \<le> x then e0 else e0 - 1)"

definition round_half_even :: "rat \<Rightarrow> int" where
  "round_half_even x = (let f = \<lfloor>x\<rfloor>; d = x - of_int f in
     if d < 1 / 2 then f else if 1 / 2 < d then f + 1 else if even f then f else f + 1)"

definition float_round :: "rat \<Rightarrow> rat" where
  "float_round x = (if x = 0 then 0 else
     let u = power_int 2 (max (ilog2 \<bar>x\<bar> - 52) (- 1074))
     in sgn x * of_int (round_half_even (\<bar>x\<bar> / u)) * u)"

text \<open>\<^verbatim>\<open>float(n)\<close> for a Python int: OverflowError when the int is too large.\<close>

definition py_float :: "int \<Rightarrow> error + rat" where
  "py_float n = (let r = float_round (of_int n) in
     if 2 ^ 1024 \<le> \<bar>r\<bar> then Inl OverflowError else Inr r)"

text \<open>
  \<^verbatim>\<open>a / b\<close> for an int \<open>a\<close> and a float \<open>b\<close>: the int is converted first, then a zero
  divisor raises, then the quotient is rounded.
\<close>

definition float_truediv :: "int \<Rightarrow> rat \<Rightarrow> error + rat" where
  "float_truediv a b = (case py_float a of
       Inl e \<Rightarrow> Inl e
     | Inr a' \<Rightarrow> if b = 0 then Inl ZeroDivisionError else Inr (float_round (a' / b)))"

text \<open>\<^verbatim>\<open>int(math.ceil(x))\<close>; an infinite \<open>x\<close> cannot be converted.\<close>

definition math_ceil :: "rat \<Rightarrow> error + int" where
  "math_ceil x = (if 2 ^ 1024 \<le> \<bar>x\<bar> then Inl OverflowError else Inr \<lceil>x\<rceil>)"

text \<open>
  \<^verbatim>\<open>int(math.ceil(size / float(part_size)))\<close>, as in \<open>MultipartUploader.upload_file\<close> and
  \<open>MultipartDownloaded.download_file\<close>.
\<close>

definition num_parts :: "int \<Rightarrow> int \<Rightarrow> error + int" where
  "num_parts file_size part_size = (case py_float part_size of
       Inl e \<Rightarrow> Inl e
     | Inr p \<Rightarrow> (case float_truediv file_size p of
           Inl e \<Rightarrow> Inl e
         | Inr q \<Rightarrow> math_ceil q))"

section \<open>Local file objects\<close>

text \<open>
  A file object opened in binary mode: its bytes and its cursor.  \<open>seek\<close> to a negative
  position raises; \<open>read(n)\<close> returns at most \<open>n\<close> bytes from the cursor, everything up
  to the end of the file for \<open>n = -1\<close>, and raises for \<open>n < -1\<close> (as \<open>io.BufferedReader\<close>
  does); \<open>write\<close> overwrites from the cursor and extends the file, filling a gap left by
  a seek past the end with zero bytes.  An offset of \<open>2 ^ 63\<close> or more, which the operating
  system refuses, is not told apart from a smaller one.
\<close>

record fileobj =
  f_contents :: string
  f_pos :: nat

definition file_seek :: "fileobj \<Rightarrow> int \<Rightarrow> error + fileobj" where
  "file_seek f offset = (if offset < 0 then Inl OSError else Inr (f\<lparr>f_pos := nat offset\<rparr>))"

definition file_read :: "fileobj \<Rightarrow> int \<Rightarrow> error + string \<times> fileobj" where
  "file_read f n = (if n < - 1 then Inl ValueError else
     let rest = drop (f_pos f) (f_contents f);
         data = (if n = - 1 then rest else take (nat n) rest)
     in Inr (data, f\<lparr>f_pos := f_pos f + length data\<rparr>))"

definition file_write :: "fileobj \<Rightarrow> string \<Rightarrow> fileobj" where
  "file_write f data = (if data = [] then f else
     let c = f_contents f;
         padded = c @ replicate (f_pos f - length c) (CHR 0x00)
     in \<lparr>f_contents = take (f_pos f) padded @ data @ drop (f_pos f + length data) c,
         f_pos = f_pos f + length data\<rparr>)"

section \<open>ReadFileChunk\<close>

record ReadFileChunk =
  rfc_fileobj :: fileobj
  rfc_start_byte :: int
  rfc_size :: int
  rfc_amount_read :: int
  rfc_callback :: bool

text \<open>\<open>ReadFileChunk._calculate_file_size\<close>.\<close>

definition calculate_file_size :: "int \<Rightarrow> int \<Rightarrow> int \<Rightarrow> int" where
  "calculate_file_size requested_size start_byte actual_file_size =
     (let max_chunk_size = actual_file_size - start_byte
      in min max_chunk_size requested_size)"

text \<open>
  \<open>ReadFileChunk.__init__\<close>.  The callback is an observer of the transfer: only whether one
  is attached is recorded, and \<open>read\<close> returns the arguments it was called with.
\<close>

definition ReadFileChunk_init ::
  "fileobj \<Rightarrow> int \<Rightarrow> int \<Rightarrow> int \<Rightarrow> bool \<Rightarrow> error + ReadFileChunk" where
  "ReadFileChunk_init fileobj start_byte chunk_size full_file_size callback =
     (case file_seek fileobj start_byte of
        Inl e \<Rightarrow> Inl e
      | Inr f \<Rightarrow> Inr \<lparr>rfc_fileobj = f, rfc_start_byte = start_byte,
          rfc_size = calculate_file_size chunk_size start_byte full_file_size,
          rfc_amount_read = 0, rfc_callback = callback\<rparr>)"

text \<open>\<open>ReadFileChunk.from_filename\<close>, on the bytes of the file that the name denotes.\<close>

definition ReadFileChunk_from_filename ::
  "string \<Rightarrow> int \<Rightarrow> int \<Rightarrow> bool \<Rightarrow> error + ReadFileChunk" where
  "ReadFileChunk_from_filename file_bytes start_byte chunk_size callback =
     (let f = \<lparr>f_contents = file_bytes, f_pos = 0\<rparr>;
          file_size = int (length file_bytes)
      in ReadFileChunk_init f start_byte chunk_size file_size callback)"

text \<open>
  \<open>ReadFileChunk.read\<close>: the data, the updated object and the calls made to the callback.
\<close>

definition ReadFileChunk_read ::
  "ReadFileChunk \<Rightarrow> int option \<Rightarrow> error + string \<times> ReadFileChunk \<times> int list" where
  "ReadFileChunk_read c amount =
     (let amount_to_read = (case amount of
              None \<Rightarrow> rfc_size c - rfc_amount_read c
            | Some a \<Rightarrow> min (rfc_size c - rfc_amount_read c) a)
      in case file_read (rfc_fileobj c) amount_to_read of
           Inl e \<Rightarrow> Inl e
         | Inr (data, f) \<Rightarrow>
             Inr (data,
                  c\<lparr>rfc_fileobj := f, rfc_amount_read := rfc_amount_read c + int (length data)\<rparr>,
                  if rfc_callback c then [int (length data)] else []))"

definition ReadFileChunk_seek :: "ReadFileChunk \<Rightarrow> int \<Rightarrow> error + ReadFileChunk" where
  "ReadFileChunk_seek c where_to =
     (case file_seek (rfc_fileobj c) (rfc_start_byte c + where_to) of
        Inl e \<Rightarrow> Inl e
      | Inr f \<Rightarrow> Inr (c\<lparr>rfc_fileobj := f, rfc_amount_read := where_to\<rparr>))"

definition ReadFileChunk_tell :: "ReadFileChunk \<Rightarrow> int" where
  "ReadFileChunk_tell c = rfc_amount_read c"

definition ReadFileChunk_len :: "ReadFileChunk \<Rightarrow> int" where
  "ReadFileChunk_len c = rfc_size c"

section \<open>StreamReaderProgress\<close>

text \<open>
  The body of a response is a read-only stream, given by the bytes still to come:
  \<open>read(n)\<close> takes up to \<open>n\<close> of them, all of them for a negative \<open>n\<close>.
\<close>

definition stream_read :: "string \<Rightarrow> int \<Rightarrow> string \<times> string" where
  "stream_read s n = (if n < 0 then (s, []) else (take (nat n) s, drop (nat n) s))"

record StreamReaderProgress =
  srp_stream :: string
  srp_callback :: bool

definition StreamReaderProgress_read ::
  "StreamReaderProgress \<Rightarrow> int \<Rightarrow> string \<times> StreamReaderProgress \<times> int list" where
  "StreamReaderProgress_read r n =
     (case stream_read (srp_stream r) n of
        (v, rest) \<Rightarrow>
          (v, r\<lparr>srp_stream := rest\<rparr>, if srp_callback r then [int (length v)] else []))"

section \<open>ThreadSafeWriter\<close>

text \<open>
  \<open>ThreadSafeWriter.pwrite\<close> as one step, which it is when no other thread touches the
  stream in between: seek, then write.
\<close>

definition ThreadSafeWriter_pwrite :: "fileobj \<Rightarrow> string \<Rightarrow> int \<Rightarrow> error + fileobj" where
  "ThreadSafeWriter_pwrite write_stream data offset =
     (case file_seek write_stream offset of
        Inl e \<Rightarrow> Inl e
      | Inr f \<Rightarrow> Inr (file_write f data))"

section \<open>The S3 client and the trace of a transfer\<close>

text \<open>
  A part of a multipart upload as \<open>_upload_one_part\<close> returns it, and the \<open>Range\<close> parameter
  \<^verbatim>\<open>'bytes=%s-%s' % (start_range, end_range)\<close> of a ranged download, where the empty
  \<open>end_range\<close> is \<open>None\<close>.
\<close>

record part =
  ETag :: string
  PartNumber :: int

datatype byte_range = Bytes int "int option"

text \<open>
  What a transfer does to the outside world, in the order it does it: the calls to
  the client, the thread pool it creates, the file it opens for writing and the writes to
  it, and the calls to the progress callback made by the module's own reads.
\<close>

datatype event =
    CreateMultipartUpload string string "(string \<times> string) list"
  | UploadPart string string string int ReadFileChunk
  | CompleteMultipartUpload string string string "part list"
  | PutObject string string ReadFileChunk "(string \<times> string) list"
  | HeadObject string string
  | GetObject string string "byte_range option"
  | ThreadPoolExecutor int
  | OpenWrite string
  | Progress int
  | Pwrite string int
  | Write string

text \<open>
  The client is a parameter of the module: each operation answers with an error or with
  the field of the response that the module reads (\<open>UploadId\<close>, \<open>ETag\<close>, \<open>ContentLength\<close>,
  the bytes of \<open>Body\<close>).
\<close>

record client =
  create_multipart_upload :: "string \<Rightarrow> string \<Rightarrow> (string \<times> string) list \<Rightarrow> error + string"
  upload_part :: "string \<Rightarrow> string \<Rightarrow> string \<Rightarrow> int \<Rightarrow> ReadFileChunk \<Rightarrow> error + string"
  complete_multipart_upload :: "string \<Rightarrow> string \<Rightarrow> string \<Rightarrow> part list \<Rightarrow> error + unit"
  put_object :: "string \<Rightarrow> string \<Rightarrow> ReadFileChunk \<Rightarrow> (string \<times> string) list \<Rightarrow> error + unit"
  head_object :: "string \<Rightarrow> string \<Rightarrow> error + int"
  get_object :: "string \<Rightarrow> string \<Rightarrow> byte_range option \<Rightarrow> error + string"

section \<open>OSUtils\<close>

text \<open>
  The local file system: the bytes of the files that exist, and the names that can be
  opened for writing.
\<close>

record OSUtils =
  files :: "string \<Rightarrow> string option"
  writable :: "string \<Rightarrow> bool"

definition get_file_size :: "OSUtils \<Rightarrow> string \<Rightarrow> error + int" where
  "get_file_size os filename = (case files os filename of
       None \<Rightarrow> Inl OSError
     | Some file_bytes \<Rightarrow> Inr (int (length file_bytes)))"

definition open_file_chunk_reader ::
  "OSUtils \<Rightarrow> string \<Rightarrow> int \<Rightarrow> int \<Rightarrow> bool \<Rightarrow> error + ReadFileChunk" where
  "open_file_chunk_reader os filename start_byte chunk_size callback =
     (case files os filename of
        None \<Rightarrow> Inl OSError
      | Some file_bytes \<Rightarrow> ReadFileChunk_from_filename file_bytes start_byte chunk_size callback)"

text \<open>\<^verbatim>\<open>open(filename, 'wb')\<close>: the file is created empty, or truncated.\<close>

definition open_wb :: "OSUtils \<Rightarrow> string \<Rightarrow> error + fileobj" where
  "open_wb os filename =
     (if writable os filename then Inr \<lparr>f_contents = [], f_pos = 0\<rparr> else Inl OSError)"

section \<open>TransferConfig\<close>

definition MB :: int where
  "MB = 1024 * 1024"

record TransferConfig =
  multipart_threshold :: int
  max_concurrency :: int
  multipart_chunksize :: int

text \<open>\<open>TransferConfig.__init__\<close>: an argument left out takes its default.\<close>

definition TransferConfig_init :: "int option \<Rightarrow> int option \<Rightarrow> int option \<Rightarrow> TransferConfig" where
  "TransferConfig_init threshold concurrency chunksize =
     \<lparr>multipart_threshold = (case threshold of None \<Rightarrow> 8 * MB | Some v \<Rightarrow> v),
      max_concurrency = (case concurrency of None \<Rightarrow> 1 | Some v \<Rightarrow> v),
      multipart_chunksize = (case chunksize of None \<Rightarrow> 8 * MB | Some v \<Rightarrow> v)\<rparr>"

section \<open>The thread pool\<close>

text \<open>
  \<open>executor.map(fn, items)\<close> submits every item and yields the results in the order of
  the items; the first failed result is raised, the results after it are dropped and
  the tasks not yet started are cancelled.  A task returns its events and its result.
  The tasks run here one after the other in the order of submission, as they do on a
  pool of one worker; \<open>overrun\<close> is the number of tasks after the failed one that had
  started before the cancellation reached them, whose effects happen and whose results
  are lost.
\<close>

fun executor_map ::
  "('i \<Rightarrow> event list \<times> (error + 'a)) \<Rightarrow> 'i list \<Rightarrow> nat \<Rightarrow> event list \<times> (error + 'a list)" where
  "executor_map fn [] overrun = ([], Inr [])"
| "executor_map fn (x # xs) overrun = (case fn x of
       (es, Inl e) \<Rightarrow> (es @ concat (map (\<lambda>y. fst (fn y)) (take overrun xs)), Inl e)
     | (es, Inr y) \<Rightarrow> (case executor_map fn xs overrun of
           (es', Inl e) \<Rightarrow> (es @ es', Inl e)
         | (es', Inr ys) \<Rightarrow> (es @ es', Inr (y # ys))))"

section \<open>MultipartUploader\<close>

definition upload_one_part ::
  "client \<Rightarrow> OSUtils \<Rightarrow> string \<Rightarrow> string \<Rightarrow> string \<Rightarrow> string \<Rightarrow> int \<Rightarrow> bool \<Rightarrow> int
     \<Rightarrow> event list \<times> (error + part)" where
  "upload_one_part cl os filename bucket key upload_id part_size callback part_number =
     (case open_file_chunk_reader os filename (part_size * (part_number - 1)) part_size callback of
        Inl e \<Rightarrow> ([], Inl e)
      | Inr body \<Rightarrow> (case upload_part cl bucket key upload_id part_number body of
            Inl e \<Rightarrow> ([UploadPart bucket key upload_id part_number body], Inl e)
          | Inr etag \<Rightarrow> ([UploadPart bucket key upload_id part_number body],
              Inr \<lparr>ETag = etag, PartNumber = part_number\<rparr>)))"

text \<open>\<^verbatim>\<open>parts.sort(key=lambda x: x['PartNumber'])\<close>: a stable sort.\<close>

definition sort_parts :: "part list \<Rightarrow> part list" where
  "sort_parts parts = sort_key PartNumber parts"

definition MultipartUploader_upload_file ::
  "client \<Rightarrow> TransferConfig \<Rightarrow> OSUtils \<Rightarrow> nat \<Rightarrow> string \<Rightarrow> string \<Rightarrow> string \<Rightarrow> bool
     \<Rightarrow> (string \<times> string) list \<Rightarrow> event list \<times> (error + unit)" where
  "MultipartUploader_upload_file cl config os overrun filename bucket key callback extra_args =
     (let create = CreateMultipartUpload bucket key extra_args in
      case create_multipart_upload cl bucket key extra_args of
        Inl e \<Rightarrow> ([create], Inl e)
      | Inr upload_id \<Rightarrow>
         (let part_size = multipart_chunksize config in
          case get_file_size os filename of
            Inl e \<Rightarrow> ([create], Inl e)
          | Inr file_size \<Rightarrow> (case num_parts file_size part_size of
              Inl e \<Rightarrow> ([create], Inl e)
            | Inr n \<Rightarrow>
               (let max_workers = max_concurrency config in
                if max_workers \<le> 0 then ([create], Inl ValueError)
                else case executor_map
                    (upload_one_part cl os filename bucket key upload_id part_size callback)
                    [1..n] overrun of
                  (es, Inl e) \<Rightarrow> (create # ThreadPoolExecutor max_workers # es, Inl e)
                | (es, Inr parts) \<Rightarrow>
                   (let sorted_parts = sort_parts parts in
                    (create # ThreadPoolExecutor max_workers # es
                       @ [CompleteMultipartUpload bucket key upload_id sorted_parts],
                     complete_multipart_upload cl bucket key upload_id sorted_parts))))))"

section \<open>MultipartDownloaded\<close>

definition buffer_size :: int where
  "buffer_size = 1024 * 16"

text \<open>
  The loop of \<open>_download_range\<close>:
  \<^verbatim>\<open>for chunk in iter(lambda: streaming_body.read(buffer_size), b''): ...\<close>.
  The writer's \<open>pwrite\<close> raises when the seek does, at a negative offset.
\<close>

function write_chunks :: "StreamReaderProgress \<Rightarrow> int \<Rightarrow> event list \<times> (error + unit)" where
  "write_chunks streaming_body current_index =
     (case StreamReaderProgress_read streaming_body buffer_size of
        (chunk, streaming_body', calls) \<Rightarrow>
          if chunk = [] then (map Progress calls, Inr ())
          else if current_index < 0
            then (map Progress calls @ [Pwrite chunk current_index], Inl OSError)
          else (case write_chunks streaming_body' (current_index + int (length chunk)) of
              (es, r) \<Rightarrow> (map Progress calls @ Pwrite chunk current_index # es, r)))"
  by pat_completeness auto
termination
  by (relation "measure (\<lambda>(b, i). length (srp_stream b))")
    (auto simp: StreamReaderProgress_read_def stream_read_def buffer_size_def split: if_splits)

declare write_chunks.simps [simp del]

definition download_range ::
  "client \<Rightarrow> bool \<Rightarrow> string \<Rightarrow> string \<Rightarrow> int \<Rightarrow> int \<Rightarrow> int \<Rightarrow> event list \<times> (error + unit)" where
  "download_range cl callback bucket key part_size n_parts i =
     (let start_range = i * part_size;
          end_range = (if i = n_parts - 1 then None else Some (start_range + part_size - 1));
          range_param = Bytes start_range end_range
      in case get_object cl bucket key (Some range_param) of
           Inl e \<Rightarrow> ([GetObject bucket key (Some range_param)], Inl e)
         | Inr body \<Rightarrow>
            (case write_chunks \<lparr>srp_stream = body, srp_callback = callback\<rparr> start_range of
               (es, r) \<Rightarrow> (GetObject bucket key (Some range_param) # es, r)))"

definition MultipartDownloaded_download_file ::
  "client \<Rightarrow> TransferConfig \<Rightarrow> OSUtils \<Rightarrow> nat \<Rightarrow> string \<Rightarrow> string \<Rightarrow> string \<Rightarrow> int \<Rightarrow> bool
     \<Rightarrow> event list \<times> (error + unit)" where
  "MultipartDownloaded_download_file cl config os overrun bucket key filename object_size callback =
     (let part_size = multipart_chunksize config in
      case num_parts object_size part_size of
        Inl e \<Rightarrow> ([], Inl e)
      | Inr n \<Rightarrow>
         (let max_workers = max_concurrency config in
          case open_wb os filename of
            Inl e \<Rightarrow> ([], Inl e)
          | Inr f \<Rightarrow>
              if max_workers \<le> 0 then ([OpenWrite filename], Inl ValueError)
              else (case executor_map (download_range cl callback bucket key part_size n)
                    [0..n - 1] overrun of
                  (es, Inl e) \<Rightarrow> (OpenWrite filename # ThreadPoolExecutor max_workers # es, Inl e)
                | (es, Inr rs) \<Rightarrow>
                    (OpenWrite filename # ThreadPoolExecutor max_workers # es, Inr ()))))"

section \<open>S3Transfer\<close>

record S3Transfer =
  s3_client :: client
  s3_config :: TransferConfig
  s3_osutil :: OSUtils

text \<open>\<open>S3Transfer.__init__\<close>; the file system is always given.\<close>

definition S3Transfer_init :: "client \<Rightarrow> TransferConfig option \<Rightarrow> OSUtils \<Rightarrow> S3Transfer" where
  "S3Transfer_init cl config os =
     \<lparr>s3_client = cl,
      s3_config = (case config of None \<Rightarrow> TransferConfig_init None None None | Some c \<Rightarrow> c),
      s3_osutil = os\<rparr>"

definition S3Transfer_put_object ::
  "S3Transfer \<Rightarrow> string \<Rightarrow> string \<Rightarrow> string \<Rightarrow> bool \<Rightarrow> (string \<times> string) list
     \<Rightarrow> event list \<times> (error + unit)" where
  "S3Transfer_put_object t filename bucket key callback extra_args =
     (case get_file_size (s3_osutil t) filename of
        Inl e \<Rightarrow> ([], Inl e)
      | Inr file_size \<Rightarrow>
         (case open_file_chunk_reader (s3_osutil t) filename 0 file_size callback of
            Inl e \<Rightarrow> ([], Inl e)
          | Inr body \<Rightarrow> ([PutObject bucket key body extra_args],
              put_object (s3_client t) bucket key body extra_args)))"

definition S3Transfer_multipart_upload ::
  "S3Transfer \<Rightarrow> nat \<Rightarrow> string \<Rightarrow> string \<Rightarrow> string \<Rightarrow> bool \<Rightarrow> (string \<times> string) list
     \<Rightarrow> event list \<times> (error + unit)" where
  "S3Transfer_multipart_upload t overrun filename bucket key callback extra_args =
     MultipartUploader_upload_file (s3_client t) (s3_config t) (s3_osutil t) overrun
       filename bucket key callback extra_args"

definition S3Transfer_upload_file ::
  "S3Transfer \<Rightarrow> nat \<Rightarrow> string \<Rightarrow> string \<Rightarrow> string \<Rightarrow> bool \<Rightarrow> (string \<times> string) list option
     \<Rightarrow> event list \<times> (error + unit)" where
  "S3Transfer_upload_file t overrun filename bucket key callback extra_args =
     (let extra_args = (case extra_args of None \<Rightarrow> [] | Some a \<Rightarrow> a) in
      case get_file_size (s3_osutil t) filename of
        Inl e \<Rightarrow> ([], Inl e)
      | Inr file_size \<Rightarrow>
          if file_size \<ge> multipart_threshold (s3_config t)
          then S3Transfer_multipart_upload t overrun filename bucket key callback extra_args
          else S3Transfer_put_object t filename bucket key callback extra_args)"

text \<open>
  The loop of \<open>_get_object\<close>:
  \<^verbatim>\<open>for chunk in iter(lambda: streaming_body.read(8192), b''): f.write(chunk)\<close>.
\<close>

function copy_chunks :: "StreamReaderProgress \<Rightarrow> event list" where
  "copy_chunks streaming_body =
     (case StreamReaderProgress_read streaming_body 8192 of
        (chunk, streaming_body', calls) \<Rightarrow>
          if chunk = [] then map Progress calls
          else map Progress calls @ Write chunk # copy_chunks streaming_body')"
  by pat_completeness auto
termination
  by (relation "measure (\<lambda>b. length (srp_stream b))")
    (auto simp: StreamReaderProgress_read_def stream_read_def split: if_splits)

declare copy_chunks.simps [simp del]

definition S3Transfer_get_object ::
  "S3Transfer \<Rightarrow> string \<Rightarrow> string \<Rightarrow> string \<Rightarrow> bool \<Rightarrow> event list \<times> (error + unit)" where
  "S3Transfer_get_object t bucket key filename callback =
     (case get_object (s3_client t) bucket key None of
        Inl e \<Rightarrow> ([GetObject bucket key None], Inl e)
      | Inr body \<Rightarrow>
         (case open_wb (s3_osutil t) filename of
            Inl e \<Rightarrow> ([GetObject bucket key None], Inl e)
          | Inr f \<Rightarrow>
              (GetObject bucket key None # OpenWrite filename
                 # copy_chunks \<lparr>srp_stream = body, srp_callback = callback\<rparr>, Inr ())))"

definition S3Transfer_ranged_download ::
  "S3Transfer \<Rightarrow> nat \<Rightarrow> string \<Rightarrow> string \<Rightarrow> string \<Rightarrow> int \<Rightarrow> bool
     \<Rightarrow> event list \<times> (error + unit)" where
  "S3Transfer_ranged_download t overrun bucket key filename object_size callback =
     MultipartDownloaded_download_file (s3_client t) (s3_config t) (s3_osutil t) overrun
       bucket key filename object_size callback"

definition S3Transfer_download_file ::
  "S3Transfer \<Rightarrow> nat \<Rightarrow> string \<Rightarrow> string \<Rightarrow> string \<Rightarrow> bool \<Rightarrow> event list \<times> (error + unit)" where
  "S3Transfer_download_file t overrun bucket key filename callback =
     (case head_object (s3_client t) bucket key of
        Inl e \<Rightarrow> ([HeadObject bucket key], Inl e)
      | Inr object_size \<Rightarrow>
         (case (if object_size \<ge> multipart_threshold (s3_config t)
                then S3Transfer_ranged_download t overrun bucket key filename object_size callback
                else S3Transfer_get_object t bucket key filename callback) of
            (es, r) \<Rightarrow> (HeadObject bucket key # es, r)))"

section \<open>The file that a download leaves\<close>

text \<open>
  The output file after the events of a trace, when each \<open>pwrite\<close> runs undisturbed:
  \<open>None\<close> until the file is opened.
\<close>

fun apply_event :: "fileobj option \<Rightarrow> event \<Rightarrow> fileobj option" where
  "apply_event f (OpenWrite filename) = Some \<lparr>f_contents = [], f_pos = 0\<rparr>"
| "apply_event (Some f) (Pwrite data offset) =
     (case ThreadSafeWriter_pwrite f data offset of Inl e \<Rightarrow> Some f | Inr f' \<Rightarrow> Some f')"
| "apply_event (Some f) (Write data) = Some (file_write f data)"
| "apply_event f e = f"

definition file_after :: "event list \<Rightarrow> fileobj option" where
  "file_after es = foldl apply_event None es"

section \<open>Workers that share the output file\<close>

text \<open>
  With more than one worker the calls of \<open>pwrite\<close> overlap in time.  A call is four steps:
  \<^verbatim>\<open>with self._lock:\<close> acquires the lock of the writer, then \<open>seek\<close>, then \<open>write\<close>, then the
  lock is released.  \<open>_download_range\<close> wraps the file in a writer of its own
  (\<^verbatim>\<open>safe_writer = self._os.wrap_thread_safe_writer(fileobj)\<close>), and every
  \<open>ThreadSafeWriter\<close> creates its lock in \<open>__init__\<close>: the range of index \<open>i\<close> works under
  lock \<open>i\<close>.
\<close>

datatype step = Acquire nat | Seek int | WriteBytes string | Release nat

definition pwrite_steps :: "nat \<Rightarrow> string \<Rightarrow> int \<Rightarrow> step list" where
  "pwrite_steps lock data offset = [Acquire lock, Seek offset, WriteBytes data, Release lock]"

fun pwrite_calls :: "event list \<Rightarrow> (string \<times> int) list" where
  "pwrite_calls [] = []"
| "pwrite_calls (Pwrite data offset # es) = (data, offset) # pwrite_calls es"
| "pwrite_calls (e # es) = pwrite_calls es"

definition worker_steps ::
  "client \<Rightarrow> bool \<Rightarrow> string \<Rightarrow> string \<Rightarrow> int \<Rightarrow> int \<Rightarrow> int \<Rightarrow> step list" where
  "worker_steps cl callback bucket key part_size n_parts i =
     concat (map (\<lambda>(data, offset). pwrite_steps (nat i) data offset)
       (pwrite_calls (fst (download_range cl callback bucket key part_size n_parts i))))"

text \<open>
  The state that the workers share: the file object with its one cursor, and the locks
  that are held.  A step that cannot be taken (a lock that is held, a seek that raises)
  gives \<open>None\<close>.
\<close>

record shared =
  sh_file :: fileobj
  sh_held :: "nat list"

fun do_step :: "step \<Rightarrow> shared \<Rightarrow> shared option" where
  "do_step (Acquire l) s = (if l \<in> set (sh_held s) then None else Some (s\<lparr>sh_held := l # sh_held s\<rparr>))"
| "do_step (Release l) s = Some (s\<lparr>sh_held := removeAll l (sh_held s)\<rparr>)"
| "do_step (Seek offset) s = (case file_seek (sh_file s) offset of
       Inl e \<Rightarrow> None
     | Inr f \<Rightarrow> Some (s\<lparr>sh_file := f\<rparr>))"
| "do_step (WriteBytes data) s = Some (s\<lparr>sh_file := file_write (sh_file s) data\<rparr>)"

text \<open>
  A schedule names, step by step, the worker that moves.  The result is what is left of
  every worker's steps and the shared state, or \<open>None\<close> for a schedule that the workers
  cannot follow.
\<close>

fun run_schedule :: "nat list \<Rightarrow> step list list \<Rightarrow> shared \<Rightarrow> (step list list \<times> shared) option" where
  "run_schedule [] workers s = Some (workers, s)"
| "run_schedule (w # ws) workers s =
     (if w < length workers then
        (case workers ! w of
           [] \<Rightarrow> None
         | st # sts \<Rightarrow> (case do_step st s of
               None \<Rightarrow> None
             | Some s' \<Rightarrow> run_schedule ws (workers[w := sts]) s'))
      else None)"

section \<open>A store that holds one object\<close>

text \<open>
  The answers of a store to the requests for an object of bytes \<open>obj\<close>: a byte range
  \<open>bytes=a-b\<close> selects the bytes of offsets \<open>a\<close> to \<open>b\<close> that the object has, \<open>bytes=a-\<close> those
  from \<open>a\<close> on; a range that starts at or after the end of the object is refused, and one
  that ends before it starts is ignored.
\<close>

definition slice_range :: "string \<Rightarrow> byte_range \<Rightarrow> error + string" where
  "slice_range obj r = (case r of Bytes a b \<Rightarrow>
     (case b of
        None \<Rightarrow> if 0 \<le> a \<and> a < int (length obj) then Inr (drop (nat a) obj)
                else Inl (ClientError ''InvalidRange'')
      | Some b' \<Rightarrow> if b' < a then Inr obj
                else if 0 \<le> a \<and> a < int (length obj)
                  then Inr (take (nat (b' + 1 - a)) (drop (nat a) obj))
                else Inl (ClientError ''InvalidRange'')))"

definition object_store :: "string \<Rightarrow> client" where
  "object_store obj =
     \<lparr>create_multipart_upload = (\<lambda>bucket key extra_args. Inr ''upload-id''),
      upload_part = (\<lambda>bucket key upload_id part_number body. Inr ''etag''),
      complete_multipart_upload = (\<lambda>bucket key upload_id parts. Inr ()),
      put_object = (\<lambda>bucket key body extra_args. Inr ()),
      head_object = (\<lambda>bucket key. Inr (int (length obj))),
      get_object = (\<lambda>bucket key r. case r of None \<Rightarrow> Inr obj | Some r' \<Rightarrow> slice_range obj r')\<rparr>"

section \<open>Reading a trace\<close>

fun is_create :: "event \<Rightarrow> bool" where
  "is_create (CreateMultipartUpload bucket key extra_args) = True"
| "is_create e = False"

fun is_upload_part :: "event \<Rightarrow> bool" where
  "is_upload_part (UploadPart bucket key upload_id part_number body) = True"
| "is_upload_part e = False"

fun is_complete :: "event \<Rightarrow> bool" where
  "is_complete (CompleteMultipartUpload bucket key upload_id parts) = True"
| "is_complete e = False"

fun is_put_object :: "event \<Rightarrow> bool" where
  "is_put_object (PutObject bucket key body extra_args) = True"
| "is_put_object e = False"

fun is_plain_get :: "event \<Rightarrow> bool" where
  "is_plain_get (GetObject bucket key None) = True"
| "is_plain_get e = False"

fun is_ranged_get :: "event \<Rightarrow> bool" where
  "is_ranged_get (GetObject bucket key (Some r)) = True"
| "is_ranged_get e = False"

text \<open>The calls to the store among the events.\<close>

fun is_store_call :: "event \<Rightarrow> bool" where
  "is_store_call (ThreadPoolExecutor w) = False"
| "is_store_call (OpenWrite filename) = False"
| "is_store_call (Progress n) = False"
| "is_store_call (Pwrite data offset) = False"
| "is_store_call (Write data) = False"
| "is_store_call e = True"

text \<open>The sizes of the thread pools that a trace creates.\<close>

fun pool_sizes :: "event list \<Rightarrow> int list" where
  "pool_sizes [] = []"
| "pool_sizes (ThreadPoolExecutor w # es) = w # pool_sizes es"
| "pool_sizes (e # es) = pool_sizes es"

text \<open>The part lists handed to \<open>complete_multipart_upload\<close>.\<close>

fun completed_parts :: "event list \<Rightarrow> part list list" where
  "completed_parts [] = []"
| "completed_parts (CompleteMultipartUpload bucket key upload_id parts # es) =
     parts # completed_parts es"
| "completed_parts (e # es) = completed_parts es"

text \<open>
  The bodies handed to \<open>upload_part\<close>, in the order of the calls: the part number, and
  the first byte and the number of bytes of the file that the \<open>ReadFileChunk\<close> gives
  access to.
\<close>

fun uploaded_parts :: "event list \<Rightarrow> (int \<times> int \<times> int) list" where
  "uploaded_parts [] = []"
| "uploaded_parts (UploadPart bucket key upload_id part_number body # es) =
     (part_number, rfc_start_byte body, rfc_size body) # uploaded_parts es"
| "uploaded_parts (e # es) = uploaded_parts es"

text \<open>The ranges requested, in the order of the requests.\<close>

fun requested_ranges :: "event list \<Rightarrow> byte_range list" where
  "requested_ranges [] = []"
| "requested_ranges (GetObject bucket key (Some r) # es) = r # requested_ranges es"
| "requested_ranges (e # es) = requested_ranges es"

text \<open>
  The offset of every byte that the \<open>pwrite\<close> calls of a trace write, call after call.
\<close>

fun written_offsets :: "event list \<Rightarrow> int list" where
  "written_offsets [] = []"
| "written_offsets (Pwrite data offset # es) =
     [offset..offset + int (length data) - 1] @ written_offsets es"
| "written_offsets (e # es) = written_offsets es"

section \<open>Example inputs\<close>

text \<open>
  A file system with one file of seven bytes, and a configuration with a threshold of
  four bytes and parts of three.
\<close>

definition example_os :: OSUtils where
  "example_os = \<lparr>files = (\<lambda>name. if name = ''f'' then Some ''abcdefg'' else None),
     writable = (\<lambda>name. True)\<rparr>"

definition example_config :: TransferConfig where
  "example_config = \<lparr>multipart_threshold = 4, max_concurrency = 1, multipart_chunksize = 3\<rparr>"

text \<open>A file system in which every name denotes an empty file.\<close>

definition empty_files_os :: OSUtils where
  "empty_files_os = \<lparr>files = (\<lambda>name. Some []), writable = (\<lambda>name. True)\<rparr>"

text \<open>
  A file system in which every name denotes a file of \<open>n\<close> bytes, and a store that holds
  an object of \<open>n\<close> bytes.
\<close>

definition sized_files_os :: "nat \<Rightarrow> OSUtils" where
  "sized_files_os n =
     \<lparr>files = (\<lambda>name. Some (replicate n (CHR ''x''))), writable = (\<lambda>name. True)\<rparr>"

definition sized_object_store :: "nat \<Rightarrow> client" where
  "sized_object_store n = object_store (replicate n (CHR ''x''))"

section \<open>Rounding to binary64\<close>

lemma bitlen_powi_bounds:
  assumes "0 < a"
  shows "power_int 2 (bitlen a - 1) \<le> (of_int a :: rat)" "(of_int a :: rat) < power_int 2 (bitlen a)"
proof -
  from assms have b1: "1 \<le> bitlen a" by (auto simp: bitlen_alt_def)
  from bitlen_bounds[OF assms] have lo: "2 ^ nat (bitlen a - 1) \<le> a" and hi: "a < 2 ^ nat (bitlen a)"
    by auto
  have "(of_int (2 ^ nat (bitlen a - 1)) :: rat) \<le> of_int a"
    using lo by (simp only: of_int_le_iff)
  then show "power_int 2 (bitlen a - 1) \<le> (of_int a :: rat)"
    using b1 by (simp add: power_int_def)
  have "(of_int a :: rat) < of_int (2 ^ nat (bitlen a))"
    using hi by (simp only: of_int_less_iff)
  then show "(of_int a :: rat) < power_int 2 (bitlen a)"
    using b1 by (simp add: power_int_def)
qed

lemma ilog2_bounds:
  assumes "0 < x"
  shows "power_int 2 (ilog2 x) \<le> x" "x < power_int 2 (ilog2 x + 1)"
proof -
  obtain a b where q: "quotient_of x = (a, b)" by (cases "quotient_of x")
  then have b: "0 < b" and x: "x = of_int a / of_int b"
    by (auto simp: quotient_of_denom_pos quotient_of_div)
  from assms x b have a: "0 < a"
    by (simp add: zero_less_divide_iff)
  note A = bitlen_powi_bounds[OF a] and B = bitlen_powi_bounds[OF b]
  let ?e0 = "bitlen a - bitlen b"
  have up: "x < power_int 2 (?e0 + 1)"
  proof -
    have "x * of_int b = of_int a" using x b by simp
    also have "\<dots> < power_int 2 (bitlen a)" by (rule A)
    also have "\<dots> = power_int 2 (?e0 + 1) * power_int 2 (bitlen b - 1)"
      by (simp flip: power_int_add)
    also have "\<dots> \<le> power_int 2 (?e0 + 1) * of_int b"
      using B(1) by (intro mult_left_mono) auto
    finally show ?thesis using b by simp
  qed
  have lo: "power_int 2 (?e0 - 1) \<le> x"
  proof -
    have "power_int 2 (?e0 - 1) * of_int b \<le> power_int 2 (?e0 - 1) * (power_int 2 (bitlen b) :: rat)"
      using B(2) by (intro mult_left_mono) auto
    also have "\<dots> = power_int 2 (bitlen a - 1)"
      by (simp flip: power_int_add)
    also have "\<dots> \<le> of_int a" by (rule A)
    also have "\<dots> = x * of_int b" using x b by simp
    finally show ?thesis using b by simp
  qed
  show "power_int 2 (ilog2 x) \<le> x"
    using lo by (simp add: ilog2_def q Let_def)
  show "x < power_int 2 (ilog2 x + 1)"
    using up by (auto simp add: ilog2_def q Let_def not_le)
qed

lemma ilog2_unique:
  assumes "power_int 2 e \<le> x" "x < power_int 2 (e + 1)"
  shows "ilog2 x = e"
proof -
  have "(0::rat) < power_int 2 e" by simp
  with assms(1) have "0 < x" by linarith
  note B = ilog2_bounds[OF this]
  have 1: "e < ilog2 x + 1"
  proof (rule ccontr)
    assume "\<not> e < ilog2 x + 1"
    then have "power_int (2::rat) (ilog2 x + 1) \<le> power_int 2 e"
      by (intro power_int_increasing) auto
    with assms(1) B(2) show False by linarith
  qed
  have 2: "ilog2 x < e + 1"
  proof (rule ccontr)
    assume "\<not> ilog2 x < e + 1"
    then have "power_int (2::rat) (e + 1) \<le> power_int 2 (ilog2 x)"
      by (intro power_int_increasing) auto
    with assms(2) B(1) show False by linarith
  qed
  from 1 2 show ?thesis by simp
qed

lemma round_half_even_err: "\<bar>of_int (round_half_even y) - y\<bar> \<le> 1 / 2"
proof -
  have "of_int \<lfloor>y\<rfloor> \<le> y" "y < of_int \<lfloor>y\<rfloor> + 1" by linarith+
  then show ?thesis
    by (auto simp: round_half_even_def Let_def)
qed

lemma round_half_even_of_int: "round_half_even (of_int n) = n"
  by (simp add: round_half_even_def)


lemma float_round_pos:
  assumes "0 < x" "- 1022 \<le> ilog2 x"
  shows "float_round x =
    of_int (round_half_even (x / power_int 2 (ilog2 x - 52))) * power_int 2 (ilog2 x - 52)"
proof -
  have m: "max (ilog2 \<bar>x\<bar> - 52) (- 1074) = ilog2 x - 52"
    using assms by simp
  have "x \<noteq> 0" "sgn x = 1" "\<bar>x\<bar> = x" using assms(1) by simp_all
  then show ?thesis
    unfolding float_round_def Let_def m by simp
qed

lemma float_round_of_int:
  assumes "0 < n" "n < 2 ^ 53"
  shows "float_round (of_int n) = of_int n"
proof -
  let ?x = "of_int n :: rat"
  let ?e = "ilog2 ?x"
  have x: "0 < ?x" using assms by simp
  note B = ilog2_bounds[OF x]
  have e0: "0 \<le> ?e"
  proof (rule ccontr)
    assume "\<not> 0 \<le> ?e"
    then have "power_int (2::rat) (?e + 1) \<le> power_int 2 0"
      by (intro power_int_increasing) auto
    moreover have "1 \<le> ?x" using assms by simp
    ultimately show False using B(2) by simp
  qed
  have e52: "?e \<le> 52"
  proof (rule ccontr)
    assume "\<not> ?e \<le> 52"
    then have "power_int (2::rat) 53 \<le> power_int 2 ?e"
      by (intro power_int_increasing) auto
    moreover have "?x < of_int (2 ^ 53)" using assms(2) by (simp only: of_int_less_iff)
    ultimately show False using B(1) by simp
  qed
  define k where "k = nat (52 - ?e)"
  have u: "power_int (2::rat) (?e - 52) = 1 / 2 ^ k"
    using e52 by (simp add: power_int_def k_def power_one_over)
  have "?x / power_int 2 (?e - 52) = of_int (n * 2 ^ k)"
    by (simp add: u)
  then have "round_half_even (?x / power_int 2 (?e - 52)) = n * 2 ^ k"
    by (simp only: round_half_even_of_int)
  then show ?thesis
    using x e0 by (simp add: float_round_pos u)
qed

lemma float_round_err:
  assumes "0 < x" "- 1022 \<le> ilog2 x"
  shows "\<bar>float_round x - x\<bar> \<le> x / 2 ^ 53"
proof -
  let ?u = "power_int 2 (ilog2 x - 52) :: rat"
  have u: "0 < ?u" by simp
  define r where "r = (of_int (round_half_even (x / ?u)) :: rat)"
  have "float_round x - x = (r - x / ?u) * ?u"
    unfolding float_round_pos[OF assms] r_def by (simp add: left_diff_distrib)
  then have "\<bar>float_round x - x\<bar> = \<bar>r - x / ?u\<bar> * ?u"
    by (simp only: abs_mult) simp
  also have "\<dots> = \<bar>of_int (round_half_even (x / ?u)) - x / ?u\<bar> * ?u"
    by (simp only: r_def)
  also have "\<dots> \<le> 1 / 2 * ?u"
    using u by (intro mult_right_mono round_half_even_err) simp_all
  also have "\<dots> = power_int 2 (ilog2 x) / 2 ^ 53"
    by (simp add: power_int_diff)
  also have "\<dots> \<le> x / 2 ^ 53"
    using ilog2_bounds(1)[OF assms(1)] by (simp add: divide_right_mono)
  finally show ?thesis .
qed

section \<open>The number of parts\<close>

lemma py_float_exact:
  assumes "0 \<le> n" "n < 2 ^ 53"
  shows "py_float n = Inr (of_int n)"
proof (cases "n = 0")
  case True
  then show ?thesis by (simp add: py_float_def float_round_def)
next
  case False
  with assms have n: "0 < n" by simp
  have "(of_int n :: rat) < of_int (2 ^ 53)" using assms(2) by (simp only: of_int_less_iff)
  then have "(of_int n :: rat) < 2 ^ 1024" by simp
  then show ?thesis
    using n by (simp add: py_float_def float_round_of_int[OF n assms(2)])
qed

lemma quotient_gap_below:
  fixes P S a :: int
  assumes "0 < P" "a * P + 1 \<le> S"
  shows "of_int a + 1 / of_int P \<le> (of_int S / of_int P :: rat)"
proof -
  have P: "(0::rat) < of_int P" using assms(1) by simp
  have "(of_int (a * P + 1) :: rat) \<le> of_int S" using assms(2) by (simp only: of_int_le_iff)
  then have "(of_int a + 1 / of_int P) * of_int P \<le> (of_int S :: rat)"
    using P by (simp add: distrib_right)
  then show ?thesis using P by (simp only: pos_le_divide_eq)
qed

lemma quotient_gap_above:
  fixes P S c :: int
  assumes "0 < P" "S + 1 \<le> c * P"
  shows "(of_int S / of_int P :: rat) + 1 / of_int P \<le> of_int c"
proof -
  have P: "(0::rat) < of_int P" using assms(1) by simp
  have "(of_int (S + 1) :: rat) \<le> of_int (c * P)" using assms(2) by (simp only: of_int_le_iff)
  then have "(of_int S + 1 :: rat) \<le> of_int c * of_int P" by simp
  then have "(of_int S + 1 :: rat) / of_int P \<le> of_int c"
    using P by (simp only: pos_divide_le_eq)
  then show ?thesis by (simp add: add_divide_distrib)
qed

lemma float_round_quotient_ceiling:
  assumes "0 < S" "S < 2 ^ 53" "0 < P" "P < 2 ^ 53"
  shows "\<lceil>float_round (of_int S / of_int P)\<rceil> = \<lceil>(of_int S / of_int P :: rat)\<rceil>"
    and "float_round (of_int S / of_int P) < 2 ^ 1024"
    and "0 < float_round (of_int S / of_int P)"
proof -
  let ?q = "of_int S / of_int P :: rat"
  let ?c = "\<lceil>?q\<rceil>"
  have P: "(0::rat) < of_int P" and S: "(0::rat) < of_int S" using assms by simp_all
  have q: "0 < ?q" using P S by simp
  have cS: "?c \<le> S"
  proof -
    have "?q \<le> of_int S" using P S assms(3) by (simp add: divide_le_eq mult_le_cancel_left1)
    then show ?thesis by (simp add: ceiling_le_iff)
  qed
  have c0: "0 < ?c" using q by simp
  have goal: "\<lceil>float_round ?q\<rceil> = ?c \<and> 0 < float_round ?q"
  proof (cases "?q = of_int ?c")
    case True
    have "?c < 2 ^ 53" using cS assms(2) by linarith
    then have "float_round (of_int ?c) = (of_int ?c :: rat)"
      using c0 by (intro float_round_of_int)
    then show ?thesis using True c0 by simp
  next
    case False
    have up: "?q < of_int ?c" using False le_of_int_ceiling[of ?q] by linarith
    have lo: "of_int (?c - 1) < ?q" by (simp add: less_ceiling_iff[symmetric] del: of_int_diff)
    have "of_int S < of_int ?c * (of_int P :: rat)" using up P by (simp add: divide_less_eq)
    then have "(of_int S :: rat) < of_int (?c * P)" by simp
    then have "S < ?c * P" by (simp only: of_int_less_iff)
    then have "S + 1 \<le> ?c * P" by simp
    then have up': "?q + 1 / of_int P \<le> of_int ?c"
      by (rule quotient_gap_above[OF assms(3)])
    have "of_int (?c - 1) * (of_int P :: rat) < of_int S" using lo P by (simp add: less_divide_eq)
    then have "(of_int ((?c - 1) * P) :: rat) < of_int S" by simp
    then have "(?c - 1) * P < S" by (simp only: of_int_less_iff)
    then have "(?c - 1) * P + 1 \<le> S" by simp
    then have lo': "of_int (?c - 1) + 1 / of_int P \<le> ?q"
      by (rule quotient_gap_below[OF assms(3)])
    have e: "- 1022 \<le> ilog2 ?q"
    proof (rule ccontr)
      assume "\<not> - 1022 \<le> ilog2 ?q"
      then have "power_int (2::rat) (ilog2 ?q + 1) \<le> power_int 2 (- 53)"
        by (intro power_int_increasing) auto
      then have "?q < power_int 2 (- 53)" using ilog2_bounds(2)[OF q] by linarith
      moreover have "power_int (2::rat) (- 53) = 1 / 2 ^ 53"
        by (simp only: power_int_minus_divide power_int_numeral)
      ultimately have "?q < 1 / 2 ^ 53" by (simp only:)
      moreover have "1 / 2 ^ 53 < 1 / (of_int P :: rat)"
      proof -
        have "(of_int P :: rat) < of_int (2 ^ 53)" using assms(4) by (simp only: of_int_less_iff)
        then show ?thesis using P by (simp add: field_simps)
      qed
      moreover have "1 / of_int P \<le> ?q" using P assms(1) by (simp add: divide_right_mono)
      ultimately show False by linarith
    qed
    have "?q / 2 ^ 53 < 1 / of_int P"
    proof -
      have "(of_int S :: rat) < of_int (2 ^ 53)" using assms(2) by (simp only: of_int_less_iff)
      then have "(of_int S :: rat) / 2 ^ 53 < 1" by simp
      then have "(of_int S :: rat) / 2 ^ 53 / of_int P < 1 / of_int P"
        using P by (simp only: divide_strict_right_mono)
      then show ?thesis by (simp add: field_simps)
    qed
    with float_round_err[OF q e] have err: "\<bar>float_round ?q - ?q\<bar> < 1 / of_int P" by linarith
    have 1: "float_round ?q < of_int ?c" using err up' by linarith
    have 2: "of_int (?c - 1) < float_round ?q" using err lo' by linarith
    have "\<lceil>float_round ?q\<rceil> = ?c"
      using 1 2 by (intro ceiling_unique) (simp_all del: of_int_diff)
    moreover have "0 < float_round ?q"
    proof -
      have "0 \<le> ?c - 1" using c0 by simp
      then have "(0::rat) \<le> of_int (?c - 1)" by (simp only: of_int_0_le_iff)
      with 2 show ?thesis by linarith
    qed
    ultimately show ?thesis by simp
  qed
  then show "\<lceil>float_round ?q\<rceil> = ?c" and "0 < float_round ?q" by simp_all
  have "float_round ?q \<le> of_int \<lceil>float_round ?q\<rceil>" by (rule le_of_int_ceiling)
  also have "\<dots> = of_int ?c" using goal by simp
  also have "\<dots> \<le> of_int S" using cS by (simp only: of_int_le_iff)
  also have "\<dots> < of_int (2 ^ 53)" using assms(2) by (simp only: of_int_less_iff)
  also have "\<dots> < (2 ^ 1024 :: rat)" by simp
  finally show "float_round ?q < 2 ^ 1024" .
qed

lemma num_parts_exact:
  assumes "0 \<le> S" "S < 2 ^ 53" "0 < P" "P < 2 ^ 53"
  shows "num_parts S P = Inr \<lceil>(of_int S / of_int P :: rat)\<rceil>"
proof (cases "S = 0")
  case True
  have "py_float P = Inr (of_int P)" using assms by (intro py_float_exact) auto
  then show ?thesis using True assms(3)
    by (simp add: num_parts_def float_truediv_def py_float_exact math_ceil_def float_round_def)
next
  case False
  with assms have S: "0 < S" by simp
  note R = float_round_quotient_ceiling[OF S assms(2,3,4)]
  have "py_float P = Inr (of_int P)" "py_float S = Inr (of_int S)"
    using assms by (auto intro!: py_float_exact)
  then show ?thesis using assms(3) R
    by (simp add: num_parts_def float_truediv_def math_ceil_def abs_if)
qed

lemma ceiling_rat_div: "\<lceil>(of_int S / of_int P :: rat)\<rceil> = - (- S div P)"
proof -
  have "\<lceil>(of_int S / of_int P :: rat)\<rceil> = - \<lfloor>of_int (- S) / (of_int P :: rat)\<rfloor>"
    by (simp add: ceiling_def)
  also have "\<dots> = - (- S div P)"
    by (simp only: floor_divide_of_int_eq)
  finally show ?thesis .
qed

lemma num_parts_exact_div:
  assumes "0 \<le> S" "S < 2 ^ 53" "0 < P" "P < 2 ^ 53"
  shows "num_parts S P = Inr (- (- S div P))"
  using num_parts_exact[OF assms] by (simp only: ceiling_rat_div)

section \<open>Facts about the thread pool\<close>

lemma executor_map_events:
  "e \<in> set (fst (executor_map fn xs k)) \<Longrightarrow> \<exists>x \<in> set xs. e \<in> set (fst (fn x))"
proof (induction xs)
  case Nil
  then show ?case by simp
next
  case (Cons x xs)
  obtain es r where fx: "fn x = (es, r)" by (cases "fn x")
  show ?case
  proof (cases r)
    case (Inl err)
    with Cons.prems fx show ?thesis
      by (auto dest: in_set_takeD)
  next
    case (Inr y)
    obtain es' r' where rec: "executor_map fn xs k = (es', r')" by (cases "executor_map fn xs k")
    with Cons.prems fx Inr have "e \<in> set es \<or> e \<in> set es'"
      by (cases r') auto
    with Cons.IH fx rec show ?thesis by auto
  qed
qed

lemma executor_map_fails:
  "x \<in> set xs \<Longrightarrow> isl (snd (fn x)) \<Longrightarrow> isl (snd (executor_map fn xs k))"
proof (induction xs)
  case Nil
  then show ?case by simp
next
  case (Cons a xs)
  obtain es r where fa: "fn a = (es, r)" by (cases "fn a")
  obtain es' r' where rec: "executor_map fn xs k = (es', r')" by (cases "executor_map fn xs k")
  show ?case
  proof (cases r)
    case (Inl err)
    with fa show ?thesis by simp
  next
    case (Inr y)
    with Cons fa have "x \<in> set xs" by auto
    with Cons have "isl r'" using rec by simp
    with fa Inr rec show ?thesis by (cases r') auto
  qed
qed

lemma executor_map_results:
  "executor_map fn xs k = (es, Inr ys) \<Longrightarrow> map (\<lambda>x. snd (fn x)) xs = map Inr ys"
proof (induction xs arbitrary: es ys)
  case Nil
  then show ?case by simp
next
  case (Cons a xs)
  obtain ea r where fa: "fn a = (ea, r)" by (cases "fn a")
  obtain es' r' where rec: "executor_map fn xs k = (es', r')" by (cases "executor_map fn xs k")
  from Cons.prems fa rec obtain y ys' where "r = Inr y" "r' = Inr ys'" "ys = y # ys'"
    by (cases r; cases r') auto
  with Cons.IH[of es' ys'] fa rec show ?case by simp
qed

lemma executor_map_ok:
  "\<forall>x \<in> set xs. snd (fn x) = Inr (g x) \<Longrightarrow>
     executor_map fn xs k = (concat (map (\<lambda>x. fst (fn x)) xs), Inr (map g xs))"
proof (induction xs)
  case Nil
  then show ?case by simp
next
  case (Cons a xs)
  obtain ea where fa: "fn a = (ea, Inr (g a))" using Cons.prems by (cases "fn a") auto
  with Cons show ?case by simp
qed

section \<open>Thread pools in a trace\<close>

lemma pool_sizes_append: "pool_sizes (xs @ ys) = pool_sizes xs @ pool_sizes ys"
  by (induction xs rule: pool_sizes.induct) auto

lemma pool_sizes_concat_Nil:
  "\<forall>x \<in> set xs. pool_sizes (f x) = [] \<Longrightarrow> pool_sizes (concat (map f xs)) = []"
  by (induction xs) (auto simp: pool_sizes_append)

lemma pool_sizes_executor_map:
  assumes "\<And>x. pool_sizes (fst (fn x)) = []"
  shows "pool_sizes (fst (executor_map fn xs k)) = []"
proof (induction xs)
  case Nil
  then show ?case by simp
next
  case (Cons x xs)
  obtain es r where fx: "fn x = (es, r)" by (cases "fn x")
  obtain es' r' where rec: "executor_map fn xs k = (es', r')" by (cases "executor_map fn xs k")
  have 1: "pool_sizes es = []" using assms[of x] fx by simp
  have 2: "pool_sizes es' = []" using Cons rec by simp
  have 3: "pool_sizes (concat (map (\<lambda>y. fst (fn y)) (take k xs))) = []"
    by (rule pool_sizes_concat_Nil) (simp add: assms)
  show ?case using fx rec 1 2 3
    by (cases r; cases r') (simp_all add: pool_sizes_append)
qed

lemma pool_sizes_upload_one_part:
  "pool_sizes (fst (upload_one_part cl os filename bucket key upload_id part_size callback n)) = []"
  by (simp add: upload_one_part_def split: sum.splits)

lemma pool_sizes_write_chunks: "pool_sizes (fst (write_chunks b i)) = []"
proof (induction b i rule: write_chunks.induct)
  case (1 b i)
  obtain chunk b' calls where r: "StreamReaderProgress_read b buffer_size = (chunk, b', calls)"
    by (cases "StreamReaderProgress_read b buffer_size")
  have p: "pool_sizes (map Progress calls) = []"
    using r by (auto simp: StreamReaderProgress_read_def split: prod.splits if_splits)
  show ?case
  proof (cases "chunk = [] \<or> i < 0")
    case True
    then show ?thesis using r p
      by (subst write_chunks.simps) (auto simp: pool_sizes_append)
  next
    case False
    with 1[OF r[symmetric]] r have "pool_sizes (fst (write_chunks b' (i + int (length chunk)))) = []"
      by simp
    then show ?thesis using r p False
      by (subst write_chunks.simps) (auto simp: pool_sizes_append split: prod.splits)
  qed
qed

lemma pool_sizes_download_range:
  "pool_sizes (fst (download_range cl callback bucket key part_size n i)) = []"
proof -
  have "pool_sizes (fst (write_chunks b j)) = []" for b j by (rule pool_sizes_write_chunks)
  then have "write_chunks b j = (es, r) \<Longrightarrow> pool_sizes es = []" for b j es r
    by (metis fst_conv)
  then show ?thesis
    by (simp add: download_range_def Let_def split: sum.splits prod.splits)
qed

lemma pool_sizes_copy_chunks: "pool_sizes (copy_chunks b) = []"
proof (induction b rule: copy_chunks.induct)
  case (1 b)
  obtain chunk b' calls where r: "StreamReaderProgress_read b 8192 = (chunk, b', calls)"
    by (cases "StreamReaderProgress_read b 8192")
  have p: "pool_sizes (map Progress calls) = []"
    using r by (auto simp: StreamReaderProgress_read_def split: prod.splits if_splits)
  show ?case
  proof (cases "chunk = []")
    case True
    then show ?thesis using r p by (subst copy_chunks.simps) simp
  next
    case False
    with 1[OF r[symmetric]] r have "pool_sizes (copy_chunks b') = []" by simp
    then show ?thesis using r p False
      by (subst copy_chunks.simps) (simp add: pool_sizes_append)
  qed
qed

lemma pool_sizes_executor_map':
  assumes "\<And>x. pool_sizes (fst (fn x)) = []" "executor_map fn xs k = (es, r)"
  shows "pool_sizes es = []"
  using pool_sizes_executor_map[of fn xs k, OF assms(1)] assms(2) by simp

lemma pool_sizes_multipart_upload:
  "pool_sizes (fst (MultipartUploader_upload_file cl config os overrun filename bucket key callback
      extra_args)) = [] \<or>
   pool_sizes (fst (MultipartUploader_upload_file cl config os overrun filename bucket key callback
      extra_args)) = [max_concurrency config]"
proof -
  have "executor_map (upload_one_part cl os filename bucket key u p callback) xs k = (es, r)
      \<Longrightarrow> pool_sizes es = []" for u p xs k es r
    by (rule pool_sizes_executor_map'[OF pool_sizes_upload_one_part])
  then show ?thesis
    by (simp add: MultipartUploader_upload_file_def Let_def pool_sizes_append
        split: sum.splits prod.splits)
qed

lemma pool_sizes_download_file:
  "pool_sizes (fst (MultipartDownloaded_download_file cl config os overrun bucket key filename
      object_size callback)) = [] \<or>
   pool_sizes (fst (MultipartDownloaded_download_file cl config os overrun bucket key filename
      object_size callback)) = [max_concurrency config]"
proof -
  have "executor_map (download_range cl callback bucket key p n) xs k = (es, r)
      \<Longrightarrow> pool_sizes es = []" for p n xs k es r
    by (rule pool_sizes_executor_map'[OF pool_sizes_download_range])
  then show ?thesis
    by (simp add: MultipartDownloaded_download_file_def Let_def pool_sizes_append
        split: sum.splits prod.splits)
qed

section \<open>The default configuration\<close>

lemma pool_sizes_put_object:
  "pool_sizes (fst (S3Transfer_put_object t filename bucket key callback extra_args)) = []"
  by (simp add: S3Transfer_put_object_def split: sum.splits)

lemma pool_sizes_get_object:
  "pool_sizes (fst (S3Transfer_get_object t bucket key filename callback)) = []"
  by (simp add: S3Transfer_get_object_def pool_sizes_copy_chunks split: sum.splits)

text \<open>
  Claim C10.  A \<open>TransferConfig\<close> built without arguments has a threshold of 8 MiB, a chunk
  size of 8 MiB and a concurrency of 1; an \<open>S3Transfer\<close> built without a config uses it, and
  every thread pool that one of its uploads or downloads creates has one worker.
\<close>

theorem default_config_single_worker:
  "TransferConfig_init None None None =
     \<lparr>multipart_threshold = 8 * 1024 * 1024, max_concurrency = 1,
      multipart_chunksize = 8 * 1024 * 1024\<rparr> \<and>
   s3_config (S3Transfer_init cl None os) = TransferConfig_init None None None \<and>
   set (pool_sizes (fst (S3Transfer_upload_file (S3Transfer_init cl None os) overrun
          filename bucket key callback extra_args))) \<subseteq> {1} \<and>
   set (pool_sizes (fst (S3Transfer_download_file (S3Transfer_init cl None os) overrun
          bucket key filename callback))) \<subseteq> {1}"
proof -
  let ?t = "S3Transfer_init cl None os"
  have cfg: "s3_config ?t = TransferConfig_init None None None"
    by (simp add: S3Transfer_init_def)
  have mc: "max_concurrency (s3_config ?t) = 1"
    by (simp add: cfg TransferConfig_init_def)
  have up: "set (pool_sizes (fst (S3Transfer_upload_file ?t overrun filename bucket key callback
      extra_args))) \<subseteq> {1}"
  proof -
    have "set (pool_sizes (fst (S3Transfer_multipart_upload ?t overrun filename bucket key
        callback a))) \<subseteq> {1}" for a
      unfolding S3Transfer_multipart_upload_def
      using pool_sizes_multipart_upload[of "s3_client ?t" "s3_config ?t" "s3_osutil ?t" overrun
          filename bucket key callback a] mc
      by auto
    then show ?thesis
      by (simp add: S3Transfer_upload_file_def Let_def pool_sizes_put_object
          split: sum.splits option.splits)
  qed
  have down: "set (pool_sizes (fst (S3Transfer_download_file ?t overrun bucket key filename
      callback))) \<subseteq> {1}"
  proof -
    have "set (pool_sizes (fst (S3Transfer_ranged_download ?t overrun bucket key filename
        n callback))) \<subseteq> {1}" for n
      unfolding S3Transfer_ranged_download_def
      using pool_sizes_download_file[of "s3_client ?t" "s3_config ?t" "s3_osutil ?t" overrun
          bucket key filename n callback] mc
      by auto
    then show ?thesis
      by (simp add: S3Transfer_download_file_def pool_sizes_get_object
          split: sum.splits prod.splits)
        (metis fst_conv pool_sizes_get_object empty_set empty_subsetI)
  qed
  show ?thesis
    using cfg up down by (simp add: TransferConfig_init_def MB_def)
qed

section \<open>Reads and the progress callback\<close>

text \<open>
  Claim C6, as stated, fails: a read that returns no bytes calls the callback, with 0.
  Here a \<open>ReadFileChunk\<close> whose window is used up and a \<open>StreamReaderProgress\<close> whose stream is
  at its end are read once more.
\<close>

theorem zero_length_read_calls_callback:
  "ReadFileChunk_read
     \<lparr>rfc_fileobj = \<lparr>f_contents = ''abc'', f_pos = 3\<rparr>, rfc_start_byte = 0, rfc_size = 3,
      rfc_amount_read = 3, rfc_callback = True\<rparr> (Some 10) =
   Inr ([],
     \<lparr>rfc_fileobj = \<lparr>f_contents = ''abc'', f_pos = 3\<rparr>, rfc_start_byte = 0, rfc_size = 3,
      rfc_amount_read = 3, rfc_callback = True\<rparr>, [0]) \<and>
   StreamReaderProgress_read \<lparr>srp_stream = [], srp_callback = True\<rparr> 8192 =
     ([], \<lparr>srp_stream = [], srp_callback = True\<rparr>, [0])"
  by (simp add: ReadFileChunk_read_def file_read_def StreamReaderProgress_read_def
      stream_read_def)

text \<open>
  Claim C6, amended.  With a callback attached, every read that returns calls the callback
  exactly once, with the number of bytes that it returns, whether that number is positive
  or zero.
\<close>

theorem read_calls_callback_with_length:
  "(rfc_callback c \<and> ReadFileChunk_read c amount = Inr (data, c', calls)
      \<longrightarrow> calls = [int (length data)]) \<and>
   (srp_callback r \<and> StreamReaderProgress_read r n = (v, r', calls')
      \<longrightarrow> calls' = [int (length v)])"
  by (auto simp: ReadFileChunk_read_def StreamReaderProgress_read_def Let_def
      split: sum.splits prod.splits)

theorem read_calls_callback_with_length_witness:
  "rfc_callback \<lparr>rfc_fileobj = \<lparr>f_contents = ''abc'', f_pos = 0\<rparr>, rfc_start_byte = 0,
      rfc_size = 3, rfc_amount_read = 0, rfc_callback = True\<rparr> \<and>
   ReadFileChunk_read \<lparr>rfc_fileobj = \<lparr>f_contents = ''abc'', f_pos = 0\<rparr>, rfc_start_byte = 0,
      rfc_size = 3, rfc_amount_read = 0, rfc_callback = True\<rparr> (Some 2) =
     Inr (''ab'', \<lparr>rfc_fileobj = \<lparr>f_contents = ''abc'', f_pos = 2\<rparr>, rfc_start_byte = 0,
      rfc_size = 3, rfc_amount_read = 2, rfc_callback = True\<rparr>, [2]) \<and>
   [2] = [int (length ''ab'')] \<and>
   srp_callback \<lparr>srp_stream = ''abc'', srp_callback = True\<rparr> \<and>
   StreamReaderProgress_read \<lparr>srp_stream = ''abc'', srp_callback = True\<rparr> 2 =
     (''ab'', \<lparr>srp_stream = ''c'', srp_callback = True\<rparr>, [2])"
  using read_calls_callback_with_length[of
      "\<lparr>rfc_fileobj = \<lparr>f_contents = ''abc'', f_pos = 0\<rparr>, rfc_start_byte = 0,
        rfc_size = 3, rfc_amount_read = 0, rfc_callback = True\<rparr>" "Some 2" "''ab''"
      "\<lparr>rfc_fileobj = \<lparr>f_contents = ''abc'', f_pos = 2\<rparr>, rfc_start_byte = 0,
        rfc_size = 3, rfc_amount_read = 2, rfc_callback = True\<rparr>" "[2]"
      "\<lparr>srp_stream = ''abc'', srp_callback = True\<rparr>" 2 "''ab''"
      "\<lparr>srp_stream = ''c'', srp_callback = True\<rparr>" "[2]"]
  by (simp add: ReadFileChunk_read_def file_read_def StreamReaderProgress_read_def
      stream_read_def)

section \<open>Reading a ReadFileChunk outside its window\<close>

text \<open>
  Claim C7 fails on the code.  A chunk of two bytes is opened at the start of a file of
  ten; after \<open>seek(3)\<close>, past the end of the window, \<open>read()\<close> asks the file for
  \<open>2 - 3 = -1\<close> bytes, which reads to the end of the file: seven bytes, all of them outside
  the window.  On the fresh chunk \<open>read(-1)\<close> returns the whole file.
\<close>

theorem read_escapes_window:
  "ReadFileChunk_from_filename ''abcdefghij'' 0 2 False =
     Inr \<lparr>rfc_fileobj = \<lparr>f_contents = ''abcdefghij'', f_pos = 0\<rparr>, rfc_start_byte = 0,
       rfc_size = 2, rfc_amount_read = 0, rfc_callback = False\<rparr> \<and>
   ReadFileChunk_seek
     \<lparr>rfc_fileobj = \<lparr>f_contents = ''abcdefghij'', f_pos = 0\<rparr>, rfc_start_byte = 0,
       rfc_size = 2, rfc_amount_read = 0, rfc_callback = False\<rparr> 3 =
     Inr \<lparr>rfc_fileobj = \<lparr>f_contents = ''abcdefghij'', f_pos = 3\<rparr>, rfc_start_byte = 0,
       rfc_size = 2, rfc_amount_read = 3, rfc_callback = False\<rparr> \<and>
   ReadFileChunk_read
     \<lparr>rfc_fileobj = \<lparr>f_contents = ''abcdefghij'', f_pos = 3\<rparr>, rfc_start_byte = 0,
       rfc_size = 2, rfc_amount_read = 3, rfc_callback = False\<rparr> None =
     Inr (''defghij'',
       \<lparr>rfc_fileobj = \<lparr>f_contents = ''abcdefghij'', f_pos = 10\<rparr>, rfc_start_byte = 0,
         rfc_size = 2, rfc_amount_read = 10, rfc_callback = False\<rparr>, []) \<and>
   ReadFileChunk_read
     \<lparr>rfc_fileobj = \<lparr>f_contents = ''abcdefghij'', f_pos = 0\<rparr>, rfc_start_byte = 0,
       rfc_size = 2, rfc_amount_read = 0, rfc_callback = False\<rparr> (Some (- 1)) =
     Inr (''abcdefghij'',
       \<lparr>rfc_fileobj = \<lparr>f_contents = ''abcdefghij'', f_pos = 10\<rparr>, rfc_start_byte = 0,
         rfc_size = 2, rfc_amount_read = 10, rfc_callback = False\<rparr>, [])"
  by (simp add: ReadFileChunk_from_filename_def ReadFileChunk_init_def calculate_file_size_def
      ReadFileChunk_seek_def ReadFileChunk_read_def file_seek_def file_read_def Let_def)

text \<open>
  Inside the window the read is bounded: with the cursor between the start and the end of
  the window and no negative amount asked for, \<open>read\<close> returns, without raising, at most
  the bytes that are left in the window and at most the amount asked for.
\<close>

lemma read_inside_window:
  assumes "0 \<le> rfc_amount_read c" "rfc_amount_read c \<le> rfc_size c"
    and "case amount of None \<Rightarrow> True | Some a \<Rightarrow> 0 \<le> a"
  shows "\<exists>data c' calls. ReadFileChunk_read c amount = Inr (data, c', calls) \<and>
     int (length data) \<le> rfc_size c - rfc_amount_read c \<and>
     (case amount of None \<Rightarrow> True | Some a \<Rightarrow> int (length data) \<le> a)"
  using assms
  by (auto simp: ReadFileChunk_read_def file_read_def Let_def min_def split: option.splits)

section \<open>The events of each path\<close>

lemma upload_one_part_events:
  "e \<in> set (fst (upload_one_part cl os filename bucket key upload_id part_size callback n))
     \<Longrightarrow> is_upload_part e"
  by (auto simp: upload_one_part_def split: sum.splits)

lemma write_chunks_events:
  "e \<in> set (fst (write_chunks b i)) \<Longrightarrow> (\<exists>n. e = Progress n) \<or> (\<exists>d off. e = Pwrite d off)"
proof (induction b i rule: write_chunks.induct)
  case (1 b i)
  obtain chunk b' calls where r: "StreamReaderProgress_read b buffer_size = (chunk, b', calls)"
    by (cases "StreamReaderProgress_read b buffer_size")
  show ?case
  proof (cases "chunk = [] \<or> i < 0")
    case True
    with "1.prems" r show ?thesis
      by (subst (asm) write_chunks.simps) (auto split: if_splits)
  next
    case False
    obtain es x where rec: "write_chunks b' (i + int (length chunk)) = (es, x)"
      by (cases "write_chunks b' (i + int (length chunk))")
    from "1.prems" r False rec
    have "e \<in> set (map Progress calls) \<or> e = Pwrite chunk i \<or> e \<in> set es"
      by (subst (asm) write_chunks.simps) auto
    moreover have "e \<in> set es \<Longrightarrow> ?thesis"
      using "1.IH"[OF r[symmetric]] False rec by simp
    ultimately show ?thesis by auto
  qed
qed

lemma copy_chunks_events:
  "e \<in> set (copy_chunks b) \<Longrightarrow> (\<exists>n. e = Progress n) \<or> (\<exists>d. e = Write d)"
proof (induction b rule: copy_chunks.induct)
  case (1 b)
  obtain chunk b' calls where r: "StreamReaderProgress_read b 8192 = (chunk, b', calls)"
    by (cases "StreamReaderProgress_read b 8192")
  show ?case
  proof (cases "chunk = []")
    case True
    with "1.prems" r show ?thesis
      by (subst (asm) copy_chunks.simps) auto
  next
    case False
    from "1.prems" r False
    have "e \<in> set (map Progress calls) \<or> e = Write chunk \<or> e \<in> set (copy_chunks b')"
      by (subst (asm) copy_chunks.simps) auto
    moreover have "e \<in> set (copy_chunks b') \<Longrightarrow> ?thesis"
      using "1.IH"[OF r[symmetric]] False by simp
    ultimately show ?thesis by auto
  qed
qed

lemma download_range_events:
  assumes "e \<in> set (fst (download_range cl callback bucket key part_size n i))"
  shows "is_ranged_get e \<or> (\<exists>n. e = Progress n) \<or> (\<exists>d off. e = Pwrite d off)"
proof -
  have "write_chunks b j = (es, r) \<Longrightarrow> e \<in> set es
      \<Longrightarrow> (\<exists>n. e = Progress n) \<or> (\<exists>d off. e = Pwrite d off)" for b j es r
    using write_chunks_events[of e b j] by simp
  with assms show ?thesis
    by (auto simp: download_range_def Let_def split: sum.splits prod.splits)
qed

lemma multipart_upload_events:
  assumes "e \<in> set (fst (MultipartUploader_upload_file cl config os overrun filename bucket key
      callback extra_args))"
  shows "is_create e \<or> (\<exists>w. e = ThreadPoolExecutor w) \<or> is_upload_part e \<or> is_complete e"
proof -
  have "executor_map (upload_one_part cl os filename bucket key u p callback) xs k = (es, r)
      \<Longrightarrow> e \<in> set es \<Longrightarrow> is_upload_part e" for u p xs k es r
    using executor_map_events[of e "upload_one_part cl os filename bucket key u p callback" xs k]
    by (auto dest: upload_one_part_events)
  with assms show ?thesis
    by (auto simp: MultipartUploader_upload_file_def Let_def split: sum.splits prod.splits if_splits)
qed

lemma ranged_download_events:
  assumes "e \<in> set (fst (MultipartDownloaded_download_file cl config os overrun bucket key
      filename object_size callback))"
  shows "is_ranged_get e \<or> (\<exists>n. e = Progress n) \<or> (\<exists>d off. e = Pwrite d off) \<or>
     (\<exists>w. e = ThreadPoolExecutor w) \<or> (\<exists>f. e = OpenWrite f)"
proof -
  have "executor_map (download_range cl callback bucket key p n) xs k = (es, r)
      \<Longrightarrow> e \<in> set es
      \<Longrightarrow> is_ranged_get e \<or> (\<exists>n. e = Progress n) \<or> (\<exists>d off. e = Pwrite d off)"
    for p n xs k es r
    using executor_map_events[of e "download_range cl callback bucket key p n" xs k]
    by (auto dest: download_range_events)
  with assms show ?thesis
    by (auto simp: MultipartDownloaded_download_file_def Let_def
        split: sum.splits prod.splits if_splits) blast+
qed

lemma multipart_upload_hd:
  "\<exists>es. fst (MultipartUploader_upload_file cl config os overrun filename bucket key callback
      extra_args) = CreateMultipartUpload bucket key extra_args # es"
  by (auto simp: MultipartUploader_upload_file_def Let_def split: sum.splits prod.splits)

section \<open>The choice between the direct path and the multipart path\<close>

lemma put_object_trace:
  assumes "get_file_size (s3_osutil t) filename = Inr S"
  shows "\<exists>body. rfc_start_byte body = 0 \<and> rfc_size body = S \<and>
     S3Transfer_put_object t filename bucket key callback args =
       ([PutObject bucket key body args], put_object (s3_client t) bucket key body args)"
  using assms
  by (auto simp: S3Transfer_put_object_def get_file_size_def open_file_chunk_reader_def
      ReadFileChunk_from_filename_def ReadFileChunk_init_def file_seek_def
      calculate_file_size_def Let_def split: option.splits)

lemma get_object_trace:
  "\<exists>es. fst (S3Transfer_get_object t bucket key filename callback) = GetObject bucket key None # es
     \<and> filter is_ranged_get es = []"
proof -
  have "filter is_ranged_get (copy_chunks b) = []" for b
    by (auto simp: filter_empty_conv dest: copy_chunks_events)
  then show ?thesis
    by (auto simp: S3Transfer_get_object_def split: sum.splits)
qed

text \<open>
  Claim C5.  An upload of a file smaller than the threshold makes one call to the store,
  \<open>put_object\<close> with the whole file as its body; from the threshold on, the upload is the
  multipart upload: it starts with \<open>create_multipart_upload\<close> and never calls \<open>put_object\<close>.
  This holds for every \<open>extra_args\<close>, given or left out (\<open>None\<close>, which stands for no extra
  argument).  A download asks for the size first; below the threshold it then makes one
  plain \<open>get_object\<close> and no ranged one; from the threshold on, it is the ranged download
  and makes no plain \<open>get_object\<close>.  A size equal to the threshold takes the multipart path.
\<close>

theorem threshold_selects_path:
  "(get_file_size (s3_osutil t) filename = Inr S \<and> S < multipart_threshold (s3_config t) \<longrightarrow>
      (\<exists>body. rfc_start_byte body = 0 \<and> rfc_size body = S \<and>
         fst (S3Transfer_upload_file t overrun filename bucket key callback extra_args) =
           [PutObject bucket key body (case extra_args of None \<Rightarrow> [] | Some a \<Rightarrow> a)])) \<and>
   (get_file_size (s3_osutil t) filename = Inr S \<and> multipart_threshold (s3_config t) \<le> S \<longrightarrow>
      S3Transfer_upload_file t overrun filename bucket key callback extra_args =
        MultipartUploader_upload_file (s3_client t) (s3_config t) (s3_osutil t) overrun
          filename bucket key callback (case extra_args of None \<Rightarrow> [] | Some a \<Rightarrow> a) \<and>
      (\<exists>es. fst (S3Transfer_upload_file t overrun filename bucket key callback extra_args) =
         CreateMultipartUpload bucket key (case extra_args of None \<Rightarrow> [] | Some a \<Rightarrow> a) # es) \<and>
      filter is_put_object
        (fst (S3Transfer_upload_file t overrun filename bucket key callback extra_args)) = []) \<and>
   (head_object (s3_client t) bucket key = Inr L \<and> L < multipart_threshold (s3_config t) \<longrightarrow>
      (\<exists>es. fst (S3Transfer_download_file t overrun bucket key filename callback) =
         HeadObject bucket key # GetObject bucket key None # es \<and>
         filter is_ranged_get es = [])) \<and>
   (head_object (s3_client t) bucket key = Inr L \<and> multipart_threshold (s3_config t) \<le> L \<longrightarrow>
      fst (S3Transfer_download_file t overrun bucket key filename callback) =
        HeadObject bucket key #
          fst (MultipartDownloaded_download_file (s3_client t) (s3_config t) (s3_osutil t)
            overrun bucket key filename L callback) \<and>
      filter is_plain_get
        (fst (S3Transfer_download_file t overrun bucket key filename callback)) = [])"
proof -
  define args where "args = (case extra_args of None \<Rightarrow> [] | Some a \<Rightarrow> a)"
  have direct: "\<exists>body. rfc_start_byte body = 0 \<and> rfc_size body = S \<and>
         fst (S3Transfer_upload_file t overrun filename bucket key callback extra_args) =
           [PutObject bucket key body args]"
    if a: "get_file_size (s3_osutil t) filename = Inr S \<and> S < multipart_threshold (s3_config t)"
  proof -
    from a obtain body where "rfc_start_byte body = 0" "rfc_size body = S"
      "S3Transfer_put_object t filename bucket key callback args =
         ([PutObject bucket key body args], put_object (s3_client t) bucket key body args)"
      using put_object_trace[of t filename S bucket key callback args] by blast
    with a show ?thesis
      by (auto simp: S3Transfer_upload_file_def args_def)
  qed
  have multi: "S3Transfer_upload_file t overrun filename bucket key callback extra_args =
        MultipartUploader_upload_file (s3_client t) (s3_config t) (s3_osutil t) overrun
          filename bucket key callback args \<and>
      (\<exists>es. fst (S3Transfer_upload_file t overrun filename bucket key callback extra_args) =
         CreateMultipartUpload bucket key args # es) \<and>
      filter is_put_object
        (fst (S3Transfer_upload_file t overrun filename bucket key callback extra_args)) = []"
    if a: "get_file_size (s3_osutil t) filename = Inr S \<and> multipart_threshold (s3_config t) \<le> S"
  proof -
    from a have eq: "S3Transfer_upload_file t overrun filename bucket key callback extra_args =
        MultipartUploader_upload_file (s3_client t) (s3_config t) (s3_osutil t) overrun
          filename bucket key callback args"
      by (simp add: S3Transfer_upload_file_def S3Transfer_multipart_upload_def args_def)
    have hd: "\<exists>es. fst (S3Transfer_upload_file t overrun filename bucket key callback extra_args) =
         CreateMultipartUpload bucket key args # es"
      unfolding eq by (rule multipart_upload_hd)
    have "\<not> is_put_object e"
      if "e \<in> set (fst (MultipartUploader_upload_file (s3_client t) (s3_config t) (s3_osutil t)
          overrun filename bucket key callback args))" for e
      using multipart_upload_events[OF that] by (cases e) auto
    then have "filter is_put_object
        (fst (S3Transfer_upload_file t overrun filename bucket key callback extra_args)) = []"
      unfolding eq by (simp add: filter_empty_conv)
    with eq hd show ?thesis by blast
  qed
  have plain: "\<exists>es. fst (S3Transfer_download_file t overrun bucket key filename callback) =
         HeadObject bucket key # GetObject bucket key None # es \<and> filter is_ranged_get es = []"
    if a: "head_object (s3_client t) bucket key = Inr L \<and> L < multipart_threshold (s3_config t)"
  proof -
    obtain es where "fst (S3Transfer_get_object t bucket key filename callback) =
        GetObject bucket key None # es" "filter is_ranged_get es = []"
      using get_object_trace by blast
    with a show ?thesis
      by (auto simp: S3Transfer_download_file_def split: prod.splits)
  qed
  have ranged: "fst (S3Transfer_download_file t overrun bucket key filename callback) =
        HeadObject bucket key #
          fst (MultipartDownloaded_download_file (s3_client t) (s3_config t) (s3_osutil t)
            overrun bucket key filename L callback) \<and>
      filter is_plain_get
        (fst (S3Transfer_download_file t overrun bucket key filename callback)) = []"
    if a: "head_object (s3_client t) bucket key = Inr L \<and> multipart_threshold (s3_config t) \<le> L"
  proof -
    from a have eq: "fst (S3Transfer_download_file t overrun bucket key filename callback) =
        HeadObject bucket key #
          fst (MultipartDownloaded_download_file (s3_client t) (s3_config t) (s3_osutil t)
            overrun bucket key filename L callback)"
      by (simp add: S3Transfer_download_file_def S3Transfer_ranged_download_def
          split: prod.splits)
    have "\<not> is_plain_get e"
      if "e \<in> set (fst (MultipartDownloaded_download_file (s3_client t) (s3_config t)
          (s3_osutil t) overrun bucket key filename L callback))" for e
      using ranged_download_events[OF that] by (cases e rule: is_plain_get.cases) auto
    then have "filter is_plain_get
        (fst (S3Transfer_download_file t overrun bucket key filename callback)) = []"
      unfolding eq by (simp add: filter_empty_conv)
    with eq show ?thesis by blast
  qed
  show ?thesis
    using direct multi plain ranged unfolding args_def by blast
qed

theorem threshold_selects_path_witness:
  "get_file_size example_os ''f'' = Inr 7 \<and>
   head_object (object_store ''abcdefg'') ''b'' ''k'' = Inr 7 \<and>
   (7::int) < multipart_threshold (TransferConfig_init None None None) \<and>
   multipart_threshold (example_config\<lparr>multipart_threshold := 7\<rparr>) \<le> (7::int) \<and>
   (\<exists>body. rfc_start_byte body = 0 \<and> rfc_size body = 7 \<and>
      fst (S3Transfer_upload_file (S3Transfer_init (object_store ''abcdefg'') None example_os)
        0 ''f'' ''b'' ''k'' False None) = [PutObject ''b'' ''k'' body []]) \<and>
   (\<exists>es. fst (S3Transfer_download_file
        (S3Transfer_init (object_store ''abcdefg'') None example_os) 0 ''b'' ''k'' ''f'' False) =
      HeadObject ''b'' ''k'' # GetObject ''b'' ''k'' None # es \<and> filter is_ranged_get es = []) \<and>
   (\<exists>es. fst (S3Transfer_upload_file
        (S3Transfer_init (object_store ''abcdefg'')
          (Some (example_config\<lparr>multipart_threshold := 7\<rparr>)) example_os)
        0 ''f'' ''b'' ''k'' False None) = CreateMultipartUpload ''b'' ''k'' [] # es) \<and>
   filter is_put_object (fst (S3Transfer_upload_file
        (S3Transfer_init (object_store ''abcdefg'')
          (Some (example_config\<lparr>multipart_threshold := 7\<rparr>)) example_os)
        0 ''f'' ''b'' ''k'' False None)) = [] \<and>
   (\<exists>es. fst (S3Transfer_upload_file
        (S3Transfer_init (object_store ''abcdefg'')
          (Some (example_config\<lparr>multipart_threshold := 7\<rparr>)) example_os)
        0 ''f'' ''b'' ''k'' False (Some [(''ACL'', ''private'')])) =
      CreateMultipartUpload ''b'' ''k'' [(''ACL'', ''private'')] # es) \<and>
   filter is_plain_get (fst (S3Transfer_download_file
        (S3Transfer_init (object_store ''abcdefg'')
          (Some (example_config\<lparr>multipart_threshold := 7\<rparr>)) example_os)
        0 ''b'' ''k'' ''f'' False)) = []"
proof -
  let ?d = "S3Transfer_init (object_store ''abcdefg'') None example_os"
  let ?m = "S3Transfer_init (object_store ''abcdefg'')
    (Some (example_config\<lparr>multipart_threshold := 7\<rparr>)) example_os"
  have size: "get_file_size example_os ''f'' = Inr 7"
    by (simp add: get_file_size_def example_os_def)
  have head: "head_object (object_store ''abcdefg'') ''b'' ''k'' = Inr 7"
    by (simp add: object_store_def)
  have below: "(7::int) < multipart_threshold (TransferConfig_init None None None)"
    by (simp add: TransferConfig_init_def MB_def)
  have at: "multipart_threshold (example_config\<lparr>multipart_threshold := 7\<rparr>) \<le> (7::int)"
    by simp
  have d: "s3_osutil ?d = example_os" "s3_client ?d = object_store ''abcdefg''"
    "s3_config ?d = TransferConfig_init None None None"
    by (simp_all add: S3Transfer_init_def)
  have m: "s3_osutil ?m = example_os" "s3_client ?m = object_store ''abcdefg''"
    "s3_config ?m = example_config\<lparr>multipart_threshold := 7\<rparr>"
    by (simp_all add: S3Transfer_init_def)
  note direct = threshold_selects_path[where t = ?d and filename = "''f''" and S = 7 and L = 7
      and overrun = 0 and bucket = "''b''" and key = "''k''" and callback = False
      and extra_args = None, unfolded d]
  note multi = threshold_selects_path[where t = ?m and filename = "''f''" and S = 7 and L = 7
      and overrun = 0 and bucket = "''b''" and key = "''k''" and callback = False
      and extra_args = None, unfolded m]
  note given = threshold_selects_path[where t = ?m and filename = "''f''" and S = 7 and L = 7
      and overrun = 0 and bucket = "''b''" and key = "''k''" and callback = False
      and extra_args = "Some [(''ACL'', ''private'')]", unfolded m]
  note c1 = direct[THEN conjunct1, rule_format, OF conjI[OF size below]]
  note c2 = direct[THEN conjunct2, THEN conjunct2, THEN conjunct1, rule_format,
      OF conjI[OF head below]]
  note c34 = multi[THEN conjunct2, THEN conjunct1, rule_format, OF conjI[OF size at],
      THEN conjunct2]
  note c5 = multi[THEN conjunct2, THEN conjunct2, THEN conjunct2, rule_format,
      OF conjI[OF head at], THEN conjunct2]
  note c6 = given[THEN conjunct2, THEN conjunct1, rule_format, OF conjI[OF size at],
      THEN conjunct2, THEN conjunct1]
  show ?thesis
    using size head below at c1 c2 c34 c5 c6 by (intro conjI) simp_all
qed

section \<open>The part list of the completion call\<close>

lemma completed_parts_append:
  "completed_parts (xs @ ys) = completed_parts xs @ completed_parts ys"
  by (induction xs rule: completed_parts.induct) auto

lemma completed_parts_upload_parts:
  "\<forall>e \<in> set es. is_upload_part e \<Longrightarrow> completed_parts es = []"
  by (induction es rule: completed_parts.induct) auto

lemma executor_upload_parts:
  assumes "executor_map (upload_one_part cl os filename bucket key u p callback) xs k = (es, r)"
  shows "completed_parts es = []"
proof (rule completed_parts_upload_parts, rule ballI)
  fix e assume "e \<in> set es"
  then show "is_upload_part e"
    using executor_map_events[of e "upload_one_part cl os filename bucket key u p callback" xs k]
      assms by (auto dest: upload_one_part_events)
qed

lemma filter_same_key:
  "distinct (map f xs) \<Longrightarrow> k \<in> set xs \<Longrightarrow> filter (\<lambda>x. f k = f x) xs = [k]"
proof (induction xs)
  case Nil
  then show ?case by simp
next
  case (Cons a xs)
  show ?case
  proof (cases "k = a")
    case True
    have "filter (\<lambda>x. f a = f x) xs = []"
      using Cons.prems(1) by (auto simp: filter_empty_conv)
    with True show ?thesis by simp
  next
    case False
    with Cons.prems have k: "k \<in> set xs" by simp
    then have "f k \<in> f ` set xs" by (rule imageI)
    with Cons.prems(1) have "f k \<noteq> f a" by auto
    with Cons k show ?thesis by simp
  qed
qed

lemma sort_parts_permutation:
  assumes "mset ps' = mset ps" "distinct (map PartNumber ps)"
  shows "sort_parts ps' = sort_parts ps"
  unfolding sort_parts_def
proof (rule properties_for_sort_key)
  show "mset (sort_key PartNumber ps) = mset ps'" using assms(1) by simp
  show "sorted (map PartNumber (sort_key PartNumber ps))" by simp
  fix k assume k: "k \<in> set (sort_key PartNumber ps)"
  have d: "distinct (map PartNumber ps')"
    using assms by (metis distinct_map mset_eq_setD mset_map mset_eq_imp_distinct_iff)
  have d': "distinct (map PartNumber (sort_key PartNumber ps))"
    using assms(2) by (metis mset_map mset_sort mset_eq_imp_distinct_iff)
  have "k \<in> set ps'" using k assms(1) by (metis mset_eq_setD set_sort)
  then have "filter (\<lambda>x. PartNumber k = PartNumber x) ps' = [k]"
    using d by (rule filter_same_key[rotated])
  moreover have "filter (\<lambda>x. PartNumber k = PartNumber x) (sort_key PartNumber ps) = [k]"
    using d' k by (rule filter_same_key)
  ultimately show "filter (\<lambda>x. PartNumber k = PartNumber x) (sort_key PartNumber ps) =
      filter (\<lambda>x. PartNumber k = PartNumber x) ps'"
    by simp
qed

text \<open>
  Claim C3.  The part list is sorted by part number before the completion call: whatever
  the order of the collected part results, \<open>sort_parts\<close> returns the same parts in
  ascending order of part number, and two orders of the same parts (whose numbers differ)
  give the same list; every part list that a multipart upload hands to
  \<open>complete_multipart_upload\<close> is sorted by part number.
\<close>

theorem completion_parts_sorted:
  "sorted (map PartNumber (sort_parts ps)) \<and>
   mset (sort_parts ps) = mset ps \<and>
   (mset ps' = mset ps \<and> distinct (map PartNumber ps) \<longrightarrow> sort_parts ps' = sort_parts ps) \<and>
   list_all (\<lambda>parts. sorted (map PartNumber parts))
     (completed_parts (fst (MultipartUploader_upload_file cl config os overrun filename bucket
        key callback extra_args)))"
proof (intro conjI impI)
  show "sorted (map PartNumber (sort_parts ps))" by (simp add: sort_parts_def)
  show "mset (sort_parts ps) = mset ps" by (simp add: sort_parts_def)
  show "sort_parts ps' = sort_parts ps"
    if "mset ps' = mset ps \<and> distinct (map PartNumber ps)"
    using that by (intro sort_parts_permutation) simp_all
  show "list_all (\<lambda>parts. sorted (map PartNumber parts))
     (completed_parts (fst (MultipartUploader_upload_file cl config os overrun filename bucket
        key callback extra_args)))"
  proof -
    have "completed_parts es = []"
      if "executor_map (upload_one_part cl os filename bucket key u p callback) xs k = (es, r)"
      for u p xs k es r
      using that by (rule executor_upload_parts)
    then show ?thesis
      by (simp add: MultipartUploader_upload_file_def Let_def completed_parts_append
          sort_parts_def split: sum.splits prod.splits)
  qed
qed

lemma example_num_parts: "num_parts 7 3 = Inr 3"
  using num_parts_exact_div[of 7 3] by simp

lemma example_upload:
  "MultipartUploader_upload_file (object_store []) example_config example_os 0
     ''f'' ''b'' ''k'' False [] =
   ([CreateMultipartUpload ''b'' ''k'' [], ThreadPoolExecutor 1,
     UploadPart ''b'' ''k'' ''upload-id'' 1
       \<lparr>rfc_fileobj = \<lparr>f_contents = ''abcdefg'', f_pos = 0\<rparr>, rfc_start_byte = 0,
        rfc_size = 3, rfc_amount_read = 0, rfc_callback = False\<rparr>,
     UploadPart ''b'' ''k'' ''upload-id'' 2
       \<lparr>rfc_fileobj = \<lparr>f_contents = ''abcdefg'', f_pos = 3\<rparr>, rfc_start_byte = 3,
        rfc_size = 3, rfc_amount_read = 0, rfc_callback = False\<rparr>,
     UploadPart ''b'' ''k'' ''upload-id'' 3
       \<lparr>rfc_fileobj = \<lparr>f_contents = ''abcdefg'', f_pos = 6\<rparr>, rfc_start_byte = 6,
        rfc_size = 1, rfc_amount_read = 0, rfc_callback = False\<rparr>,
     CompleteMultipartUpload ''b'' ''k'' ''upload-id''
       [\<lparr>ETag = ''etag'', PartNumber = 1\<rparr>, \<lparr>ETag = ''etag'', PartNumber = 2\<rparr>,
        \<lparr>ETag = ''etag'', PartNumber = 3\<rparr>]],
    Inr ())"
  by (simp add: MultipartUploader_upload_file_def Let_def object_store_def example_config_def
      example_os_def get_file_size_def example_num_parts upload_one_part_def
      open_file_chunk_reader_def ReadFileChunk_from_filename_def ReadFileChunk_init_def
      file_seek_def calculate_file_size_def sort_parts_def upto.simps)

theorem completion_parts_sorted_witness:
  "mset [\<lparr>ETag = ''x'', PartNumber = 1\<rparr>, \<lparr>ETag = ''y'', PartNumber = 2\<rparr>] =
     mset [\<lparr>ETag = ''y'', PartNumber = 2\<rparr>, \<lparr>ETag = ''x'', PartNumber = 1\<rparr>] \<and>
   distinct (map PartNumber [\<lparr>ETag = ''y'', PartNumber = 2\<rparr>, \<lparr>ETag = ''x'', PartNumber = 1\<rparr>]) \<and>
   sort_parts [\<lparr>ETag = ''x'', PartNumber = 1\<rparr>, \<lparr>ETag = ''y'', PartNumber = 2\<rparr>] =
     sort_parts [\<lparr>ETag = ''y'', PartNumber = 2\<rparr>, \<lparr>ETag = ''x'', PartNumber = 1\<rparr>] \<and>
   sort_parts [\<lparr>ETag = ''y'', PartNumber = 2\<rparr>, \<lparr>ETag = ''x'', PartNumber = 1\<rparr>] =
     [\<lparr>ETag = ''x'', PartNumber = 1\<rparr>, \<lparr>ETag = ''y'', PartNumber = 2\<rparr>] \<and>
   completed_parts (fst (MultipartUploader_upload_file (object_store []) example_config
     example_os 0 ''f'' ''b'' ''k'' False [])) =
     [[\<lparr>ETag = ''etag'', PartNumber = 1\<rparr>, \<lparr>ETag = ''etag'', PartNumber = 2\<rparr>,
       \<lparr>ETag = ''etag'', PartNumber = 3\<rparr>]] \<and>
   list_all (\<lambda>parts. sorted (map PartNumber parts))
     (completed_parts (fst (MultipartUploader_upload_file (object_store []) example_config
        example_os 0 ''f'' ''b'' ''k'' False [])))"
proof -
  let ?p1 = "\<lparr>ETag = ''x'', PartNumber = 1\<rparr>" and ?p2 = "\<lparr>ETag = ''y'', PartNumber = 2\<rparr>"
  have h: "mset [?p1, ?p2] = mset [?p2, ?p1] \<and> distinct (map PartNumber [?p2, ?p1])"
    by simp
  note T = completion_parts_sorted[where ps = "[?p2, ?p1]" and ps' = "[?p1, ?p2]"
      and cl = "object_store []" and config = example_config and os = example_os
      and overrun = 0 and filename = "''f''" and bucket = "''b''" and key = "''k''"
      and callback = False and extra_args = "[]"]
  note perm = T[THEN conjunct2, THEN conjunct2, THEN conjunct1, rule_format, OF h]
  note tr = T[THEN conjunct2, THEN conjunct2, THEN conjunct2]
  have s: "sort_parts [?p2, ?p1] = [?p1, ?p2]" by (simp add: sort_parts_def)
  have c: "completed_parts (fst (MultipartUploader_upload_file (object_store []) example_config
     example_os 0 ''f'' ''b'' ''k'' False [])) =
     [[\<lparr>ETag = ''etag'', PartNumber = 1\<rparr>, \<lparr>ETag = ''etag'', PartNumber = 2\<rparr>,
       \<lparr>ETag = ''etag'', PartNumber = 3\<rparr>]]"
    by (simp add: example_upload)
  show ?thesis
    using h perm tr s c by (intro conjI) simp_all
qed

section \<open>A part that fails\<close>

lemma filter_is_complete_upload_parts:
  assumes "executor_map (upload_one_part cl os filename bucket key u p callback) xs k = (es, r)"
  shows "filter is_complete es = []"
proof -
  have "\<not> is_complete e" if "e \<in> set es" for e
  proof -
    have "is_upload_part e"
      using executor_map_events[of e "upload_one_part cl os filename bucket key u p callback" xs k]
        assms that by (auto dest: upload_one_part_events)
    then show ?thesis by (cases e) auto
  qed
  then show ?thesis by (simp add: filter_empty_conv)
qed

lemma upload_one_part_fails:
  assumes "\<forall>upload_id body. isl (upload_part cl bucket key upload_id m body)"
  shows "isl (snd (upload_one_part cl os filename bucket key u p callback m))"
proof (cases "open_file_chunk_reader os filename (p * (m - 1)) p callback")
  case (Inl e)
  then show ?thesis by (simp add: upload_one_part_def)
next
  case (Inr body)
  from assms have "isl (upload_part cl bucket key u m body)" by blast
  then obtain e where "upload_part cl bucket key u m body = Inl e"
    by (cases "upload_part cl bucket key u m body") auto
  with Inr show ?thesis by (simp add: upload_one_part_def)
qed

text \<open>
  Claim C9.  When the \<open>upload_part\<close> call of one of the parts fails, the multipart upload
  fails as a whole, and it never calls \<open>complete_multipart_upload\<close>.
\<close>

theorem failed_part_prevents_completion:
  "get_file_size os filename = Inr S \<and>
   num_parts S (multipart_chunksize config) = Inr n \<and> 1 \<le> m \<and> m \<le> n \<and>
   (\<forall>upload_id body. isl (upload_part cl bucket key upload_id m body)) \<longrightarrow>
   isl (snd (MultipartUploader_upload_file cl config os overrun filename bucket key callback
     extra_args)) \<and>
   filter is_complete (fst (MultipartUploader_upload_file cl config os overrun filename bucket
     key callback extra_args)) = []"
proof (intro impI)
  assume a: "get_file_size os filename = Inr S \<and>
   num_parts S (multipart_chunksize config) = Inr n \<and> 1 \<le> m \<and> m \<le> n \<and>
   (\<forall>upload_id body. isl (upload_part cl bucket key upload_id m body))"
  then have m: "m \<in> set [1..n]" by simp
  have fails: "isl (snd (executor_map (upload_one_part cl os filename bucket key u
      (multipart_chunksize config) callback) [1..n] overrun))" for u
    using m a by (intro executor_map_fails[of m] upload_one_part_fails) simp_all
  have nocomp: "filter is_complete es = []"
    if "executor_map (upload_one_part cl os filename bucket key u p callback) xs k = (es, r)"
    for u p xs k es r
    using that by (rule filter_is_complete_upload_parts)
  show "isl (snd (MultipartUploader_upload_file cl config os overrun filename bucket key callback
     extra_args)) \<and>
   filter is_complete (fst (MultipartUploader_upload_file cl config os overrun filename bucket
     key callback extra_args)) = []"
  proof (cases "create_multipart_upload cl bucket key extra_args")
    case (Inl e)
    then show ?thesis by (simp add: MultipartUploader_upload_file_def Let_def)
  next
    case (Inr u)
    obtain es r where ex: "executor_map (upload_one_part cl os filename bucket key u
      (multipart_chunksize config) callback) [1..n] overrun = (es, r)"
      by (cases "executor_map (upload_one_part cl os filename bucket key u
      (multipart_chunksize config) callback) [1..n] overrun")
    with fails[of u] obtain e where r: "r = Inl e" by (cases r) auto
    from nocomp[OF ex] Inr a ex r show ?thesis
      by (simp add: MultipartUploader_upload_file_def Let_def)
  qed
qed

theorem failed_part_prevents_completion_witness:
  "get_file_size example_os ''f'' = Inr 7 \<and>
   num_parts 7 (multipart_chunksize example_config) = Inr 3 \<and> (1::int) \<le> 2 \<and> (2::int) \<le> 3 \<and>
   (\<forall>upload_id body. isl (upload_part
      ((object_store [])\<lparr>upload_part := \<lambda>bucket key upload_id part_number body.
         if part_number = 2 then Inl (ClientError ''InternalError'') else Inr ''etag''\<rparr>)
      ''b'' ''k'' upload_id 2 body)) \<and>
   isl (snd (MultipartUploader_upload_file
      ((object_store [])\<lparr>upload_part := \<lambda>bucket key upload_id part_number body.
         if part_number = 2 then Inl (ClientError ''InternalError'') else Inr ''etag''\<rparr>)
      example_config example_os 0 ''f'' ''b'' ''k'' False [])) \<and>
   filter is_complete (fst (MultipartUploader_upload_file
      ((object_store [])\<lparr>upload_part := \<lambda>bucket key upload_id part_number body.
         if part_number = 2 then Inl (ClientError ''InternalError'') else Inr ''etag''\<rparr>)
      example_config example_os 0 ''f'' ''b'' ''k'' False [])) = []"
proof -
  let ?cl = "(object_store [])\<lparr>upload_part := \<lambda>bucket key upload_id part_number body.
         if part_number = (2::int) then Inl (ClientError ''InternalError'') else Inr ''etag''\<rparr>"
  have h: "get_file_size example_os ''f'' = Inr 7 \<and>
     num_parts 7 (multipart_chunksize example_config) = Inr 3 \<and> (1::int) \<le> 2 \<and> (2::int) \<le> 3 \<and>
     (\<forall>upload_id body. isl (upload_part ?cl ''b'' ''k'' upload_id 2 body))"
    by (simp add: get_file_size_def example_os_def example_config_def example_num_parts)
  note T = failed_part_prevents_completion[where os = example_os and filename = "''f''"
      and S = 7 and config = example_config and n = 3 and m = 2 and cl = ?cl
      and bucket = "''b''" and key = "''k''" and overrun = 0 and callback = False
      and extra_args = "[]", rule_format, OF h]
  show ?thesis
    using h T by (intro conjI) simp_all
qed

section \<open>Sizes and part sizes that are not positive\<close>

lemma round_half_even_nonneg: "0 \<le> y \<Longrightarrow> 0 \<le> round_half_even y"
  by (auto simp: round_half_even_def Let_def)

lemma float_round_nonneg: "0 \<le> x \<Longrightarrow> 0 \<le> float_round x"
  by (auto simp: float_round_def Let_def intro!: mult_nonneg_nonneg round_half_even_nonneg
      divide_nonneg_pos)

lemma float_round_nonpos:
  assumes "x \<le> 0"
  shows "float_round x \<le> 0"
proof (cases "x = 0")
  case True
  then show ?thesis by (simp add: float_round_def)
next
  case False
  with assms have x: "x < 0" by simp
  define u where "u = (power_int 2 (max (ilog2 \<bar>x\<bar> - 52) (- 1074)) :: rat)"
  have u: "0 < u" by (simp add: u_def)
  have "0 \<le> round_half_even (\<bar>x\<bar> / u)"
    using u by (intro round_half_even_nonneg divide_nonneg_pos) simp_all
  then have "0 \<le> (of_int (round_half_even (\<bar>x\<bar> / u)) :: rat) * u"
    using u by (intro mult_nonneg_nonneg) simp_all
  moreover have "float_round x = - (of_int (round_half_even (\<bar>x\<bar> / u)) * u)"
    using x by (simp add: float_round_def Let_def u_def)
  ultimately show ?thesis by simp
qed

lemma num_parts_nonpos:
  assumes "0 \<le> S" "P \<le> 0" "num_parts S P = Inr n"
  shows "n \<le> 0"
proof -
  from assms(3) obtain p a q where p: "py_float P = Inr p" and a: "py_float S = Inr a"
    and p0: "p \<noteq> 0" and q: "q = float_round (a / p)" and n: "n = \<lceil>q\<rceil>"
    by (auto simp: num_parts_def float_truediv_def math_ceil_def
        split: sum.splits if_splits)
  have "p \<le> 0" using p assms(2) float_round_nonpos[of "of_int P"]
    by (auto simp: py_float_def Let_def split: if_splits)
  moreover have "0 \<le> a" using a assms(1) float_round_nonneg[of "of_int S"]
    by (auto simp: py_float_def Let_def split: if_splits)
  ultimately have "a / p \<le> 0" using p0 by (simp add: divide_le_0_iff)
  then have "q \<le> 0" unfolding q by (rule float_round_nonpos)
  then show ?thesis unfolding n by (simp add: ceiling_le_iff)
qed

lemma num_parts_zero_part_size: "isl (num_parts S 0)"
  by (simp add: num_parts_def py_float_def float_round_def float_truediv_def Let_def
      split: sum.splits)

lemma num_parts_zero_division:
  assumes "0 \<le> S" "S < 2 ^ 53"
  shows "num_parts S 0 = Inl ZeroDivisionError"
proof -
  have "py_float 0 = Inr 0" by (simp add: py_float_def float_round_def)
  moreover have "py_float S = Inr (of_int S)" using assms by (rule py_float_exact)
  ultimately show ?thesis by (simp add: num_parts_def float_truediv_def)
qed

lemma py_float_finite:
  assumes "0 \<le> S" "S < 2 ^ 1023"
  shows "py_float S = Inr (float_round (of_int S))"
proof (cases "S = 0")
  case True
  then show ?thesis by (simp add: py_float_def float_round_def)
next
  case False
  let ?x = "of_int S :: rat"
  from False assms(1) have S: "1 \<le> S" by simp
  then have x1: "1 \<le> ?x" by simp
  then have x: "0 < ?x" by linarith
  have "?x < of_int (2 ^ 1023)" using assms(2) by (simp only: of_int_less_iff)
  then have xu: "?x < 2 ^ 1023" by simp
  note B = ilog2_bounds[OF x]
  have e0: "0 \<le> ilog2 ?x"
  proof (rule ccontr)
    assume "\<not> 0 \<le> ilog2 ?x"
    then have "power_int (2::rat) (ilog2 ?x + 1) \<le> power_int 2 0"
      by (intro power_int_increasing) auto
    with B(2) x1 show False by simp
  qed
  then have e: "- 1022 \<le> ilog2 ?x" by simp
  have "?x / 2 ^ 53 \<le> ?x" using x by (simp add: divide_le_eq)
  with float_round_err[OF x e] have "float_round ?x \<le> ?x + ?x" by linarith
  with xu have "float_round ?x < 2 ^ 1023 + 2 ^ 1023" by linarith
  then have up: "float_round ?x < 2 ^ 1024" by simp
  have "0 \<le> float_round ?x" using x by (intro float_round_nonneg) simp
  with up have "\<not> 2 ^ 1024 \<le> \<bar>float_round ?x\<bar>" by simp
  then show ?thesis unfolding py_float_def Let_def by (simp only: if_False)
qed

lemma num_parts_zero_division_finite:
  assumes "0 \<le> S" "S < 2 ^ 1023"
  shows "num_parts S 0 = Inl ZeroDivisionError"
proof -
  have "py_float 0 = Inr 0" by (simp add: py_float_def float_round_def)
  then show ?thesis
    unfolding num_parts_def float_truediv_def py_float_finite[OF assms] by simp
qed

lemma get_file_size_nonneg: "get_file_size os filename = Inr S \<Longrightarrow> 0 \<le> S"
  by (auto simp: get_file_size_def split: option.splits)

lemma multipart_upload_nonpositive_part_size:
  assumes "get_file_size os filename = Inr S" "multipart_chunksize config \<le> 0"
  shows "filter is_upload_part (fst (MultipartUploader_upload_file cl config os overrun filename
      bucket key callback args)) = []"
proof -
  have "[1..n] = []" if "num_parts S (multipart_chunksize config) = Inr n" for n
    using num_parts_nonpos[OF get_file_size_nonneg[OF assms(1)] assms(2) that] by simp
  then show ?thesis using assms(1)
    by (auto simp: MultipartUploader_upload_file_def Let_def split: sum.splits)
qed

lemma multipart_upload_zero_part_size:
  assumes "get_file_size os filename = Inr S" "multipart_chunksize config = 0"
  shows "isl (snd (MultipartUploader_upload_file cl config os overrun filename
      bucket key callback args)) \<and>
    fst (MultipartUploader_upload_file cl config os overrun filename
      bucket key callback args) = [CreateMultipartUpload bucket key args]"
proof -
  obtain e where "num_parts S 0 = Inl e"
    using num_parts_zero_part_size[of S] by (cases "num_parts S 0") auto
  then show ?thesis using assms
    by (auto simp: MultipartUploader_upload_file_def Let_def split: sum.splits)
qed

lemma multipart_upload_zero_division:
  assumes "get_file_size os filename = Inr S" "multipart_chunksize config = 0"
    and "S < 2 ^ 1023" "\<not> isl (create_multipart_upload cl bucket key args)"
  shows "snd (MultipartUploader_upload_file cl config os overrun filename
      bucket key callback args) = Inl ZeroDivisionError"
proof -
  have "num_parts S 0 = Inl ZeroDivisionError"
    using get_file_size_nonneg[OF assms(1)] assms(3) by (rule num_parts_zero_division_finite)
  then show ?thesis using assms
    by (auto simp: MultipartUploader_upload_file_def Let_def split: sum.splits)
qed

text \<open>
  Claim C8, as stated, fails: nothing validates the size of the file or the part size.
  The upload of an empty file under the default configuration calls \<open>put_object\<close> and
  succeeds; with a part size of zero, a multipart upload has already called
  \<open>create_multipart_upload\<close> when the division by zero raises.
\<close>

theorem partitioning_is_not_validated:
  "S3Transfer_upload_file (S3Transfer_init (object_store []) None empty_files_os) 0
     ''f'' ''b'' ''k'' False None =
     ([PutObject ''b'' ''k''
        \<lparr>rfc_fileobj = \<lparr>f_contents = [], f_pos = 0\<rparr>, rfc_start_byte = 0, rfc_size = 0,
         rfc_amount_read = 0, rfc_callback = False\<rparr> []], Inr ()) \<and>
   S3Transfer_upload_file
     (S3Transfer_init (object_store []) (Some (example_config\<lparr>multipart_chunksize := 0\<rparr>))
        example_os) 0 ''f'' ''b'' ''k'' False None =
     ([CreateMultipartUpload ''b'' ''k'' []], Inl ZeroDivisionError)"
proof -
  have "num_parts 7 0 = Inl ZeroDivisionError"
    by (rule num_parts_zero_division) simp_all
  then show ?thesis
    by (simp add: S3Transfer_upload_file_def S3Transfer_init_def TransferConfig_init_def MB_def
        empty_files_os_def get_file_size_def S3Transfer_put_object_def
        open_file_chunk_reader_def ReadFileChunk_from_filename_def ReadFileChunk_init_def
        file_seek_def calculate_file_size_def object_store_def example_os_def
        example_config_def S3Transfer_multipart_upload_def MultipartUploader_upload_file_def)
qed

text \<open>
  Claim C8, amended.  For every upload, with \<open>extra_args\<close> given or left out: the upload of
  an empty file, under a positive threshold, is not rejected: it makes one \<open>put_object\<close> call
  with an empty body and returns what that call returns.  With a part size that is not
  positive, an upload that takes the multipart path calls \<open>create_multipart_upload\<close> first
  and never calls \<open>upload_part\<close>; with a part size of zero it fails, and
  \<open>create_multipart_upload\<close> is the only call it has made; when that call has succeeded and
  the file has fewer than \<open>2 ^ 1023\<close> bytes (a size that \<open>float\<close> can hold), the failure
  is the division by zero, \<open>ZeroDivisionError\<close>.
\<close>

theorem unvalidated_partitioning:
  "(get_file_size (s3_osutil t) filename = Inr 0 \<and> 0 < multipart_threshold (s3_config t) \<longrightarrow>
      (\<exists>body. rfc_size body = 0 \<and>
         S3Transfer_upload_file t overrun filename bucket key callback extra_args =
           ([PutObject bucket key body (case extra_args of None \<Rightarrow> [] | Some a \<Rightarrow> a)],
            put_object (s3_client t) bucket key body
              (case extra_args of None \<Rightarrow> [] | Some a \<Rightarrow> a)))) \<and>
   (get_file_size (s3_osutil t) filename = Inr S \<and> multipart_threshold (s3_config t) \<le> S \<and>
    multipart_chunksize (s3_config t) \<le> 0 \<longrightarrow>
      (\<exists>es. fst (S3Transfer_upload_file t overrun filename bucket key callback extra_args) =
         CreateMultipartUpload bucket key (case extra_args of None \<Rightarrow> [] | Some a \<Rightarrow> a) # es) \<and>
      filter is_upload_part
        (fst (S3Transfer_upload_file t overrun filename bucket key callback extra_args)) = []) \<and>
   (get_file_size (s3_osutil t) filename = Inr S \<and> multipart_threshold (s3_config t) \<le> S \<and>
    multipart_chunksize (s3_config t) = 0 \<longrightarrow>
      isl (snd (S3Transfer_upload_file t overrun filename bucket key callback extra_args)) \<and>
      fst (S3Transfer_upload_file t overrun filename bucket key callback extra_args) =
        [CreateMultipartUpload bucket key (case extra_args of None \<Rightarrow> [] | Some a \<Rightarrow> a)] \<and>
      (S < 2 ^ 1023 \<and>
       \<not> isl (create_multipart_upload (s3_client t) bucket key
          (case extra_args of None \<Rightarrow> [] | Some a \<Rightarrow> a)) \<longrightarrow>
         snd (S3Transfer_upload_file t overrun filename bucket key callback extra_args) =
           Inl ZeroDivisionError))"
proof -
  define args where "args = (case extra_args of None \<Rightarrow> [] | Some a \<Rightarrow> a)"
  have eq: "S3Transfer_upload_file t overrun filename bucket key callback extra_args =
        MultipartUploader_upload_file (s3_client t) (s3_config t) (s3_osutil t) overrun
          filename bucket key callback args"
    if "get_file_size (s3_osutil t) filename = Inr S" "multipart_threshold (s3_config t) \<le> S"
    using that
    by (simp add: S3Transfer_upload_file_def S3Transfer_multipart_upload_def args_def)
  have empty: "\<exists>body. rfc_size body = 0 \<and>
         S3Transfer_upload_file t overrun filename bucket key callback extra_args =
           ([PutObject bucket key body args], put_object (s3_client t) bucket key body args)"
    if a: "get_file_size (s3_osutil t) filename = Inr 0 \<and> 0 < multipart_threshold (s3_config t)"
  proof -
    from a obtain body where "rfc_size body = 0"
      "S3Transfer_put_object t filename bucket key callback args =
         ([PutObject bucket key body args], put_object (s3_client t) bucket key body args)"
      using put_object_trace[of t filename 0 bucket key callback args] by blast
    with a show ?thesis
      by (auto simp: S3Transfer_upload_file_def args_def)
  qed
  have nonpos: "(\<exists>es. fst (S3Transfer_upload_file t overrun filename bucket key callback
          extra_args) = CreateMultipartUpload bucket key args # es) \<and>
      filter is_upload_part
        (fst (S3Transfer_upload_file t overrun filename bucket key callback extra_args)) = []"
    if a: "get_file_size (s3_osutil t) filename = Inr S \<and>
      multipart_threshold (s3_config t) \<le> S \<and> multipart_chunksize (s3_config t) \<le> 0"
  proof -
    note e = eq[OF a[THEN conjunct1] a[THEN conjunct2, THEN conjunct1]]
    have "\<exists>es. fst (S3Transfer_upload_file t overrun filename bucket key callback extra_args) =
         CreateMultipartUpload bucket key args # es"
      unfolding e by (rule multipart_upload_hd)
    moreover have "filter is_upload_part
        (fst (S3Transfer_upload_file t overrun filename bucket key callback extra_args)) = []"
      unfolding e using a by (intro multipart_upload_nonpositive_part_size) simp_all
    ultimately show ?thesis by blast
  qed
  have zero: "isl (snd (S3Transfer_upload_file t overrun filename bucket key callback
          extra_args)) \<and>
      fst (S3Transfer_upload_file t overrun filename bucket key callback extra_args) =
        [CreateMultipartUpload bucket key args] \<and>
      (S < 2 ^ 1023 \<and> \<not> isl (create_multipart_upload (s3_client t) bucket key args) \<longrightarrow>
         snd (S3Transfer_upload_file t overrun filename bucket key callback extra_args) =
           Inl ZeroDivisionError)"
    if a: "get_file_size (s3_osutil t) filename = Inr S \<and>
      multipart_threshold (s3_config t) \<le> S \<and> multipart_chunksize (s3_config t) = 0"
  proof -
    note e = eq[OF a[THEN conjunct1] a[THEN conjunct2, THEN conjunct1]]
    have "isl (snd (MultipartUploader_upload_file (s3_client t) (s3_config t) (s3_osutil t)
            overrun filename bucket key callback args)) \<and>
      fst (MultipartUploader_upload_file (s3_client t) (s3_config t) (s3_osutil t) overrun
            filename bucket key callback args) = [CreateMultipartUpload bucket key args]"
      using a by (intro multipart_upload_zero_part_size) simp_all
    moreover have "snd (MultipartUploader_upload_file (s3_client t) (s3_config t) (s3_osutil t)
            overrun filename bucket key callback args) = Inl ZeroDivisionError"
      if "S < 2 ^ 1023 \<and> \<not> isl (create_multipart_upload (s3_client t) bucket key args)"
      by (rule multipart_upload_zero_division[OF a[THEN conjunct1]
            a[THEN conjunct2, THEN conjunct2] that[THEN conjunct1] that[THEN conjunct2]])
    ultimately show ?thesis unfolding e by blast
  qed
  show ?thesis
    using empty nonpos zero unfolding args_def by blast
qed

theorem unvalidated_partitioning_witness:
  "get_file_size empty_files_os ''f'' = Inr 0 \<and>
   0 < multipart_threshold (TransferConfig_init None None None) \<and>
   get_file_size example_os ''f'' = Inr 7 \<and>
   multipart_threshold (example_config\<lparr>multipart_chunksize := 0\<rparr>) \<le> 7 \<and>
   multipart_chunksize (example_config\<lparr>multipart_chunksize := 0\<rparr>) = 0 \<and>
   (7::int) < 2 ^ 1023 \<and>
   \<not> isl (create_multipart_upload (object_store []) ''b'' ''k'' []) \<and>
   (\<exists>body. rfc_size body = 0 \<and>
      S3Transfer_upload_file (S3Transfer_init (object_store []) None empty_files_os) 0
        ''f'' ''b'' ''k'' False None =
      ([PutObject ''b'' ''k'' body []], put_object (object_store []) ''b'' ''k'' body [])) \<and>
   filter is_upload_part (fst (S3Transfer_upload_file
      (S3Transfer_init (object_store []) (Some (example_config\<lparr>multipart_chunksize := 0\<rparr>))
        example_os) 0 ''f'' ''b'' ''k'' False None)) = [] \<and>
   isl (snd (S3Transfer_upload_file
      (S3Transfer_init (object_store []) (Some (example_config\<lparr>multipart_chunksize := 0\<rparr>))
        example_os) 0 ''f'' ''b'' ''k'' False None)) \<and>
   fst (S3Transfer_upload_file
      (S3Transfer_init (object_store []) (Some (example_config\<lparr>multipart_chunksize := 0\<rparr>))
        example_os) 0 ''f'' ''b'' ''k'' False None) = [CreateMultipartUpload ''b'' ''k'' []] \<and>
   snd (S3Transfer_upload_file
      (S3Transfer_init (object_store []) (Some (example_config\<lparr>multipart_chunksize := 0\<rparr>))
        example_os) 0 ''f'' ''b'' ''k'' False None) = Inl ZeroDivisionError"
proof -
  let ?e = "S3Transfer_init (object_store []) None empty_files_os"
  let ?z = "S3Transfer_init (object_store []) (Some (example_config\<lparr>multipart_chunksize := 0\<rparr>))
    example_os"
  have e: "s3_osutil ?e = empty_files_os" "s3_client ?e = object_store []"
    "s3_config ?e = TransferConfig_init None None None"
    by (simp_all add: S3Transfer_init_def)
  have z: "s3_osutil ?z = example_os" "s3_client ?z = object_store []"
    "s3_config ?z = example_config\<lparr>multipart_chunksize := 0\<rparr>"
    by (simp_all add: S3Transfer_init_def)
  have h1: "get_file_size empty_files_os ''f'' = Inr 0 \<and>
      0 < multipart_threshold (TransferConfig_init None None None)"
    by (simp add: get_file_size_def empty_files_os_def TransferConfig_init_def MB_def)
  have h2: "get_file_size example_os ''f'' = Inr 7 \<and>
      multipart_threshold (example_config\<lparr>multipart_chunksize := 0\<rparr>) \<le> 7 \<and>
      multipart_chunksize (example_config\<lparr>multipart_chunksize := 0\<rparr>) \<le> 0"
    by (simp add: get_file_size_def example_os_def example_config_def)
  have h3: "get_file_size example_os ''f'' = Inr 7 \<and>
      multipart_threshold (example_config\<lparr>multipart_chunksize := 0\<rparr>) \<le> 7 \<and>
      multipart_chunksize (example_config\<lparr>multipart_chunksize := 0\<rparr>) = 0"
    by (simp add: get_file_size_def example_os_def example_config_def)
  have h4: "(7::int) < 2 ^ 1023 \<and>
      \<not> isl (create_multipart_upload (object_store []) ''b'' ''k''
        (case None of None \<Rightarrow> [] | Some a \<Rightarrow> a))"
    by (simp add: object_store_def)
  note E = unvalidated_partitioning[where t = ?e and filename = "''f''" and overrun = 0
      and bucket = "''b''" and key = "''k''" and callback = False and extra_args = None,
      unfolded e]
  note Z = unvalidated_partitioning[where t = ?z and filename = "''f''" and S = 7
      and overrun = 0 and bucket = "''b''" and key = "''k''" and callback = False
      and extra_args = None, unfolded z]
  note c1 = E[THEN conjunct1, rule_format, OF h1]
  note c2 = Z[THEN conjunct2, THEN conjunct1, rule_format, OF h2, THEN conjunct2]
  note c3 = Z[THEN conjunct2, THEN conjunct2, rule_format, OF h3]
  note c4 = c3[THEN conjunct2, THEN conjunct2, rule_format, OF h4]
  show ?thesis
    using h1 h3 h4 c1 c2 c3 c4 by (intro conjI) simp_all
qed

section \<open>The parts of an upload\<close>

lemma ceiling_quotient_bounds:
  fixes S P :: int
  assumes "0 < S" "0 < P"
  defines "N \<equiv> \<lceil>(of_int S / of_int P :: rat)\<rceil>"
  shows "1 \<le> N" "P * (N - 1) < S" "S \<le> P * N"
proof -
  have P: "(0::rat) < of_int P" using assms by simp
  have q: "(0::rat) < of_int S / of_int P" using assms by simp
  then show "1 \<le> N" unfolding N_def by simp
  have "of_int (N - 1) < (of_int S / of_int P :: rat)"
    unfolding N_def by (simp add: less_ceiling_iff[symmetric] del: of_int_diff)
  then have "of_int (N - 1) * (of_int P :: rat) < of_int S"
    using P by (simp add: less_divide_eq)
  then have "(of_int ((N - 1) * P) :: rat) < of_int S" by simp
  then have "(N - 1) * P < S" by (simp only: of_int_less_iff)
  then show "P * (N - 1) < S" by (simp add: mult.commute)
  have "(of_int S / of_int P :: rat) \<le> of_int N"
    unfolding N_def by (rule le_of_int_ceiling)
  then have "(of_int S :: rat) \<le> of_int N * of_int P"
    using P by (simp add: divide_le_eq)
  then have "(of_int S :: rat) \<le> of_int (N * P)" by simp
  then have "S \<le> N * P" by (simp only: of_int_le_iff)
  then show "S \<le> P * N" by (simp add: mult.commute)
qed

lemma part_length:
  fixes S P N n :: int
  assumes "0 < P" "P * (N - 1) < S" "S \<le> P * N" "1 \<le> n" "n \<le> N"
  shows "calculate_file_size P (P * (n - 1)) S = (if n < N then P else S - P * (N - 1))"
proof (cases "n < N")
  case True
  then have "n \<le> N - 1" by simp
  then have "P * n \<le> P * (N - 1)" using assms(1) by (intro mult_left_mono) simp_all
  with assms(2) have "P * n < S" by simp
  then have "P < S - P * (n - 1)" by (simp add: algebra_simps)
  with True show ?thesis by (simp add: calculate_file_size_def)
next
  case False
  with assms have n: "n = N" by simp
  have "S - P * (N - 1) \<le> P" using assms(3) by (simp add: algebra_simps)
  with False n show ?thesis by (simp add: calculate_file_size_def)
qed

lemma sum_list_const_upto: "sum_list (map (\<lambda>n. c) [i..j]) = c * int (length [i..j])"
  by (simp add: sum_list_triv mult.commute)

lemma part_lengths_sum:
  fixes S P N :: int
  assumes "1 \<le> N"
  shows "sum_list (map (\<lambda>n. if n < N then P else S - P * (N - 1)) [1..N]) = S"
proof -
  have split: "[1..N] = [1..N - 1] @ [N]" using assms by (simp add: upto_rec2)
  have e: "map (\<lambda>n. if n < N then P else S - P * (N - 1)) [1..N - 1] = map (\<lambda>n. P) [1..N - 1]"
    by (rule map_cong) auto
  have "sum_list (map (\<lambda>n. P) [1..N - 1]) = P * (N - 1)"
    using assms by (simp only: sum_list_const_upto) simp
  then have "sum_list (map (\<lambda>n. if n < N then P else S - P * (N - 1)) [1..N - 1]) = P * (N - 1)"
    by (simp only: e)
  then show ?thesis by (simp add: split)
qed

lemma round_half_even_tie_even: "even n \<Longrightarrow> round_half_even (of_int n + 1 / 2) = n"
proof -
  have "\<lfloor>(of_int n + 1 / 2 :: rat)\<rfloor> = n" by (rule floor_unique) simp_all
  then show "even n \<Longrightarrow> round_half_even (of_int n + 1 / 2) = n"
    by (simp add: round_half_even_def)
qed

lemma float_round_2_53_1: "float_round (2 ^ 53 + 1) = 2 ^ 53"
proof -
  let ?x = "2 ^ 53 + 1 :: rat"
  have e: "ilog2 ?x = 53"
    by (rule ilog2_unique) simp_all
  have x: "0 < ?x" by simp
  have x': "- 1022 \<le> ilog2 ?x" unfolding e by simp
  have "?x / power_int 2 (ilog2 ?x - 52) = of_int (2 ^ 52) + 1 / 2"
    unfolding e by simp
  moreover have "round_half_even ((of_int (2 ^ 52) :: rat) + 1 / 2) = 2 ^ 52"
    by (rule round_half_even_tie_even) simp
  ultimately have r: "round_half_even (?x / power_int 2 (ilog2 ?x - 52)) = 2 ^ 52"
    by (simp only:)
  show ?thesis
    unfolding float_round_pos[OF x x'] r unfolding e by simp
qed

lemma num_parts_2_53_1: "num_parts (2 ^ 53 + 1) (2 ^ 52) = Inr 2"
proof -
  have p: "py_float (2 ^ 52) = Inr (of_int (2 ^ 52))"
    by (rule py_float_exact) simp_all
  have "float_round (of_int (2 ^ 53 + 1)) = 2 ^ 53"
    using float_round_2_53_1 by simp
  then have s: "py_float (2 ^ 53 + 1) = Inr (2 ^ 53)"
    unfolding py_float_def Let_def by simp
  have "float_round (of_int 2) = (of_int 2 :: rat)"
    by (rule float_round_of_int) simp_all
  then have q: "float_round 2 = 2"
    by simp
  show ?thesis
    unfolding num_parts_def p s float_truediv_def by (simp add: q math_ceil_def)
qed

section \<open>The parts that an upload sends\<close>

lemma uploaded_parts_append: "uploaded_parts (xs @ ys) = uploaded_parts xs @ uploaded_parts ys"
  by (induction xs rule: uploaded_parts.induct) auto

lemma upload_one_part_sends:
  assumes "files os filename = Some file_bytes" "0 \<le> P * (m - 1)"
    and "\<forall>body. \<not> isl (upload_part cl bucket key u m body)"
  shows "uploaded_parts (fst (upload_one_part cl os filename bucket key u P callback m)) =
      [(m, P * (m - 1), calculate_file_size P (P * (m - 1)) (int (length file_bytes)))]"
    and "\<exists>etag. snd (upload_one_part cl os filename bucket key u P callback m) =
      Inr \<lparr>ETag = etag, PartNumber = m\<rparr>"
proof -
  define body where "body = \<lparr>rfc_fileobj = \<lparr>f_contents = file_bytes, f_pos = nat (P * (m - 1))\<rparr>,
    rfc_start_byte = P * (m - 1),
    rfc_size = calculate_file_size P (P * (m - 1)) (int (length file_bytes)),
    rfc_amount_read = 0, rfc_callback = callback\<rparr>"
  have opened: "open_file_chunk_reader os filename (P * (m - 1)) P callback = Inr body"
    using assms(1,2)
    by (simp add: open_file_chunk_reader_def ReadFileChunk_from_filename_def
        ReadFileChunk_init_def file_seek_def body_def)
  from assms(3) have "\<not> isl (upload_part cl bucket key u m body)" by blast
  then obtain etag where "upload_part cl bucket key u m body = Inr etag"
    by (cases "upload_part cl bucket key u m body") auto
  with opened have r: "upload_one_part cl os filename bucket key u P callback m =
      ([UploadPart bucket key u m body], Inr \<lparr>ETag = etag, PartNumber = m\<rparr>)"
    by (simp add: upload_one_part_def)
  show "uploaded_parts (fst (upload_one_part cl os filename bucket key u P callback m)) =
      [(m, P * (m - 1), calculate_file_size P (P * (m - 1)) (int (length file_bytes)))]"
    unfolding r by (simp add: body_def)
  show "\<exists>etag. snd (upload_one_part cl os filename bucket key u P callback m) =
      Inr \<lparr>ETag = etag, PartNumber = m\<rparr>"
    unfolding r by simp
qed

lemma uploaded_parts_of_tasks:
  assumes "\<forall>m \<in> set ms. uploaded_parts (fst (fn m)) = [g m]"
  shows "uploaded_parts (concat (map (\<lambda>m. fst (fn m)) ms)) = map g ms"
  using assms by (induction ms) (simp_all add: uploaded_parts_append)

text \<open>
  The calls of a multipart upload that goes through: one \<open>upload_part\<close> for each part number
  of \<^verbatim>\<open>range(1, num_parts + 1)\<close>, in this order, with a body that starts at byte
  \<open>part_size * (part_number - 1)\<close> and has the length that \<open>_calculate_file_size\<close> gives; then
  \<open>complete_multipart_upload\<close> with the parts of these numbers.
\<close>

lemma multipart_upload_sends:
  fixes file_bytes :: string
  defines "S \<equiv> int (length file_bytes)"
  assumes "files os filename = Some file_bytes"
    and "num_parts S (multipart_chunksize config) = Inr n"
    and "0 \<le> multipart_chunksize config" "0 < max_concurrency config"
    and "\<not> isl (create_multipart_upload cl bucket key args)"
    and "\<forall>u m body. \<not> isl (upload_part cl bucket key u m body)"
  shows "uploaded_parts (fst (MultipartUploader_upload_file cl config os overrun filename bucket
        key callback args)) =
      map (\<lambda>m. (m, multipart_chunksize config * (m - 1),
        calculate_file_size (multipart_chunksize config) (multipart_chunksize config * (m - 1)) S))
        [1..n]"
    and "map (map PartNumber) (completed_parts (fst (MultipartUploader_upload_file cl config os
        overrun filename bucket key callback args))) = [[1..n]]"
    and "\<forall>u ps. \<not> isl (complete_multipart_upload cl bucket key u ps) \<Longrightarrow>
      snd (MultipartUploader_upload_file cl config os overrun filename bucket key callback args) =
        Inr ()"
proof -
  let ?P = "multipart_chunksize config"
  from assms(6) obtain u where u: "create_multipart_upload cl bucket key args = Inr u"
    by (cases "create_multipart_upload cl bucket key args") auto
  let ?fn = "upload_one_part cl os filename bucket key u ?P callback"
  let ?g = "\<lambda>m. projr (snd (?fn m))"
  have size: "get_file_size os filename = Inr S"
    using assms(2) by (simp add: get_file_size_def S_def)
  have start: "0 \<le> ?P * (m - 1)" if "m \<in> set [1..n]" for m
    using that assms(4) by simp
  have sends: "uploaded_parts (fst (?fn m)) =
      [(m, ?P * (m - 1), calculate_file_size ?P (?P * (m - 1)) S)]"
    and result: "\<exists>etag. snd (?fn m) = Inr \<lparr>ETag = etag, PartNumber = m\<rparr>"
    if "m \<in> set [1..n]" for m
    using upload_one_part_sends[OF assms(2) start[OF that], of cl bucket key u callback] assms(7)
    unfolding S_def by blast+
  have "\<forall>m \<in> set [1..n]. snd (?fn m) = Inr (?g m)"
    using result by fastforce
  then have ex: "executor_map ?fn [1..n] overrun =
      (concat (map (\<lambda>m. fst (?fn m)) [1..n]), Inr (map ?g [1..n]))"
    by (rule executor_map_ok)
  have "map PartNumber (map ?g [1..n]) = map (\<lambda>m. m) [1..n]"
    unfolding map_map by (rule map_cong) (use result in fastforce)+
  then have numbers: "map PartNumber (map ?g [1..n]) = [1..n]" by simp
  then have "sorted (map PartNumber (map ?g [1..n]))" by (simp only: sorted_upto)
  then have sorted: "sort_parts (map ?g [1..n]) = map ?g [1..n]"
    unfolding sort_parts_def by (rule sort_key_id_if_sorted)
  have parts: "uploaded_parts (concat (map (\<lambda>m. fst (?fn m)) [1..n])) =
      map (\<lambda>m. (m, ?P * (m - 1), calculate_file_size ?P (?P * (m - 1)) S)) [1..n]"
    by (rule uploaded_parts_of_tasks) (use sends in blast)
  have nocomp: "completed_parts (concat (map (\<lambda>m. fst (?fn m)) [1..n])) = []"
    using executor_upload_parts[OF ex] .
  have r: "MultipartUploader_upload_file cl config os overrun filename bucket key callback args =
      (CreateMultipartUpload bucket key args # ThreadPoolExecutor (max_concurrency config) #
         concat (map (\<lambda>m. fst (?fn m)) [1..n]) @
         [CompleteMultipartUpload bucket key u (map ?g [1..n])],
       complete_multipart_upload cl bucket key u (map ?g [1..n]))"
    using u size assms(3,5) ex sorted
    by (simp add: MultipartUploader_upload_file_def Let_def)
  show "uploaded_parts (fst (MultipartUploader_upload_file cl config os overrun filename bucket
        key callback args)) =
      map (\<lambda>m. (m, ?P * (m - 1), calculate_file_size ?P (?P * (m - 1)) S)) [1..n]"
    unfolding r using parts by (simp add: uploaded_parts_append)
  show "map (map PartNumber) (completed_parts (fst (MultipartUploader_upload_file cl config os
        overrun filename bucket key callback args))) = [[1..n]]"
    unfolding r using nocomp numbers by (simp add: completed_parts_append)
  show "snd (MultipartUploader_upload_file cl config os overrun filename bucket key callback
      args) = Inr ()"
    if "\<forall>u ps. \<not> isl (complete_multipart_upload cl bucket key u ps)"
  proof -
    from that have "\<not> isl (complete_multipart_upload cl bucket key u (map ?g [1..n]))" by blast
    then show ?thesis unfolding r
      by (cases "complete_multipart_upload cl bucket key u (map ?g [1..n])") auto
  qed
qed

text \<open>
  For a file of \<open>S\<close> bytes and parts of \<open>P\<close> bytes, with \<open>0 < S < 2 ^ 53\<close> and
  \<open>0 < P < 2 ^ 53\<close>, the division is exact enough: the upload sends \<open>N = ceil(S / P)\<close>
  parts, numbered \<open>1\<close> to \<open>N\<close>; part \<open>n\<close> starts at byte \<open>P * (n - 1)\<close>; every part but the
  last has \<open>P\<close> bytes and the last has \<open>S - P * (N - 1)\<close>, which is positive and at most \<open>P\<close>;
  the lengths add up to \<open>S\<close>.
\<close>

lemma upload_partition_below_2_53:
  fixes file_bytes :: string and config :: TransferConfig
  defines "S \<equiv> int (length file_bytes)"
  defines "N \<equiv> \<lceil>(of_int (int (length file_bytes)) / of_int (multipart_chunksize config) :: rat)\<rceil>"
  assumes "files os filename = Some file_bytes" "0 < S" "S < 2 ^ 53"
    and "0 < multipart_chunksize config" "multipart_chunksize config < 2 ^ 53"
    and "0 < max_concurrency config"
    and "\<not> isl (create_multipart_upload cl bucket key args)"
    and "\<forall>u m body. \<not> isl (upload_part cl bucket key u m body)"
  shows "uploaded_parts (fst (MultipartUploader_upload_file cl config os overrun filename bucket
        key callback args)) =
      map (\<lambda>m. (m, multipart_chunksize config * (m - 1),
        if m < N then multipart_chunksize config else S - multipart_chunksize config * (N - 1)))
        [1..N]"
    and "map (map PartNumber) (completed_parts (fst (MultipartUploader_upload_file cl config os
        overrun filename bucket key callback args))) = [[1..N]]"
    and "0 < S - multipart_chunksize config * (N - 1)"
    and "S - multipart_chunksize config * (N - 1) \<le> multipart_chunksize config"
    and "sum_list (map (\<lambda>(m, start, len). len) (uploaded_parts (fst
        (MultipartUploader_upload_file cl config os overrun filename bucket key callback args)))) =
      S"
proof -
  let ?P = "multipart_chunksize config"
  have np: "num_parts (int (length file_bytes)) ?P = Inr N"
    unfolding N_def using assms(4-7) unfolding S_def by (intro num_parts_exact) simp_all
  have S0: "0 < int (length file_bytes)" using assms(4) unfolding S_def .
  have B: "1 \<le> N" "?P * (N - 1) < S" "S \<le> ?P * N"
    unfolding N_def S_def by (rule ceiling_quotient_bounds[OF S0 assms(6)])+
  have P0: "0 \<le> ?P" using assms(6) by simp
  note L = multipart_upload_sends[where overrun = overrun and callback = callback,
      OF assms(3) np P0 assms(8,9,10)]
  have len: "calculate_file_size ?P (?P * (m - 1)) S = (if m < N then ?P else S - ?P * (N - 1))"
    if "m \<in> set [1..N]" for m
    using that assms(6) B by (intro part_length) simp_all
  have e: "map (\<lambda>m. (m, ?P * (m - 1), calculate_file_size ?P (?P * (m - 1)) S)) [1..N] =
      map (\<lambda>m. (m, ?P * (m - 1), if m < N then ?P else S - ?P * (N - 1))) [1..N]"
    by (rule map_cong) (simp_all add: len)
  show parts: "uploaded_parts (fst (MultipartUploader_upload_file cl config os overrun filename
        bucket key callback args)) =
      map (\<lambda>m. (m, ?P * (m - 1), if m < N then ?P else S - ?P * (N - 1))) [1..N]"
    using L(1) e unfolding S_def by simp
  show "map (map PartNumber) (completed_parts (fst (MultipartUploader_upload_file cl config os
        overrun filename bucket key callback args))) = [[1..N]]"
    by (rule L(2))
  show "0 < S - ?P * (N - 1)" "S - ?P * (N - 1) \<le> ?P"
    using B by (simp_all add: algebra_simps)
  have "map (\<lambda>(m, start, len). len)
      (map (\<lambda>m. (m, ?P * (m - 1), if m < N then ?P else S - ?P * (N - 1))) [1..N]) =
      map (\<lambda>m. if m < N then ?P else S - ?P * (N - 1)) [1..N]"
    by simp
  then show "sum_list (map (\<lambda>(m, start, len). len) (uploaded_parts (fst
        (MultipartUploader_upload_file cl config os overrun filename bucket key callback args)))) =
      S"
    unfolding parts using part_lengths_sum[OF B(1), of ?P S] by (simp only:)
qed

lemma num_parts_2_53_1_default: "num_parts (2 ^ 53 + 1) (8 * MB) = Inr (2 ^ 30)"
proof -
  have p: "py_float (8 * MB) = Inr (of_int (8 * MB))"
    by (rule py_float_exact) (simp_all add: MB_def)
  have "float_round (of_int (2 ^ 53 + 1)) = 2 ^ 53"
    using float_round_2_53_1 by simp
  then have s: "py_float (2 ^ 53 + 1) = Inr (2 ^ 53)"
    unfolding py_float_def Let_def by simp
  have "float_round (of_int (2 ^ 30)) = (of_int (2 ^ 30) :: rat)"
    by (rule float_round_of_int) simp_all
  then have q: "float_round 1073741824 = 1073741824"
    by simp
  show ?thesis
    unfolding num_parts_def p s float_truediv_def by (simp add: q math_ceil_def MB_def)
qed

lemma sized_file_upload_2_52:
  "MultipartUploader_upload_file (object_store []) (TransferConfig_init None None (Some (2 ^ 52)))
     (sized_files_os (2 ^ 53 + 1)) 0 ''f'' ''b'' ''k'' False [] =
   ([CreateMultipartUpload ''b'' ''k'' [], ThreadPoolExecutor 1,
     UploadPart ''b'' ''k'' ''upload-id'' 1
       \<lparr>rfc_fileobj = \<lparr>f_contents = replicate (2 ^ 53 + 1) (CHR ''x''), f_pos = 0\<rparr>,
        rfc_start_byte = 0, rfc_size = 2 ^ 52, rfc_amount_read = 0, rfc_callback = False\<rparr>,
     UploadPart ''b'' ''k'' ''upload-id'' 2
       \<lparr>rfc_fileobj = \<lparr>f_contents = replicate (2 ^ 53 + 1) (CHR ''x''), f_pos = 2 ^ 52\<rparr>,
        rfc_start_byte = 2 ^ 52, rfc_size = 2 ^ 52, rfc_amount_read = 0, rfc_callback = False\<rparr>,
     CompleteMultipartUpload ''b'' ''k'' ''upload-id''
       [\<lparr>ETag = ''etag'', PartNumber = 1\<rparr>, \<lparr>ETag = ''etag'', PartNumber = 2\<rparr>]],
    Inr ())"
proof -
  have np: "num_parts 9007199254740993 4503599627370496 = Inr 2"
    using num_parts_2_53_1 by simp
  show ?thesis
    by (simp add: MultipartUploader_upload_file_def Let_def object_store_def
        TransferConfig_init_def sized_files_os_def get_file_size_def np upload_one_part_def
        open_file_chunk_reader_def ReadFileChunk_from_filename_def ReadFileChunk_init_def
        file_seek_def calculate_file_size_def sort_parts_def upto.simps)
qed

lemma sized_file_upload_default:
  "snd (MultipartUploader_upload_file (object_store []) (TransferConfig_init None None None)
     (sized_files_os (2 ^ 53 + 1)) 0 ''f'' ''b'' ''k'' False []) = Inr ()"
  "uploaded_parts (fst (MultipartUploader_upload_file (object_store [])
     (TransferConfig_init None None None) (sized_files_os (2 ^ 53 + 1)) 0 ''f'' ''b'' ''k''
     False [])) = map (\<lambda>m. (m, 8 * MB * (m - 1), 8 * MB)) [1..2 ^ 30]"
proof -
  let ?c = "TransferConfig_init None None None"
  let ?bytes = "replicate (2 ^ 53 + 1) (CHR ''x'')"
  have c: "multipart_chunksize ?c = 8 * MB" "max_concurrency ?c = 1"
    by (simp_all add: TransferConfig_init_def)
  have f: "files (sized_files_os (2 ^ 53 + 1)) ''f'' = Some ?bytes"
    by (simp add: sized_files_os_def)
  have len: "int (length ?bytes) = 2 ^ 53 + 1" by simp
  have np: "num_parts (int (length ?bytes)) (multipart_chunksize ?c) = Inr (2 ^ 30)"
    unfolding len c by (rule num_parts_2_53_1_default)
  have P0: "0 \<le> multipart_chunksize ?c" "0 < max_concurrency ?c"
    unfolding c by (simp_all add: MB_def)
  have cl: "\<not> isl (create_multipart_upload (object_store []) ''b'' ''k'' [])"
    "\<forall>u m body. \<not> isl (upload_part (object_store []) ''b'' ''k'' u m body)"
    "\<forall>u ps. \<not> isl (complete_multipart_upload (object_store []) ''b'' ''k'' u ps)"
    by (simp_all add: object_store_def)
  note L = multipart_upload_sends[where overrun = 0 and callback = False,
      OF f np P0 cl(1,2), unfolded len c]
  show "snd (MultipartUploader_upload_file (object_store []) ?c
     (sized_files_os (2 ^ 53 + 1)) 0 ''f'' ''b'' ''k'' False []) = Inr ()"
    by (rule L(3)[OF cl(3)])
  have "calculate_file_size (8 * MB) (8 * MB * (m - 1)) (2 ^ 53 + 1) = 8 * MB"
    if "m \<in> set [1..2 ^ 30]" for m
  proof -
    from that have "m \<le> 2 ^ 30" by simp
    then have "8 * MB * m \<le> 8 * MB * 2 ^ 30"
      by (intro mult_left_mono) (simp_all add: MB_def)
    then have "8 * MB * m \<le> 2 ^ 53" by (simp add: MB_def)
    then show ?thesis by (simp add: calculate_file_size_def algebra_simps)
  qed
  then have "map (\<lambda>m. (m, 8 * MB * (m - 1),
        calculate_file_size (8 * MB) (8 * MB * (m - 1)) (2 ^ 53 + 1))) [1..2 ^ 30] =
      map (\<lambda>m. (m, 8 * MB * (m - 1), 8 * MB)) [1..2 ^ 30]"
    by (intro map_cong) simp_all
  with L(1) show "uploaded_parts (fst (MultipartUploader_upload_file (object_store []) ?c
     (sized_files_os (2 ^ 53 + 1)) 0 ''f'' ''b'' ''k'' False [])) =
     map (\<lambda>m. (m, 8 * MB * (m - 1), 8 * MB)) [1..2 ^ 30]"
    by (simp only:)
qed

text \<open>
  Claim C1 fails on the code.  The number of parts is computed in binary64,
  \<^verbatim>\<open>int(math.ceil(size / float(part_size)))\<close>, and a file of \<open>2 ^ 53 + 1\<close> bytes has a size
  that binary64 rounds to \<open>2 ^ 53\<close>.  With parts of \<open>2 ^ 52\<close> bytes the upload sends two
  parts where \<open>ceil(S / P) = 3\<close>, both of \<open>2 ^ 52\<close> bytes, and completes: the call returns
  normally and the last byte of the file is in no part.  Under the default
  configuration, with parts of 8 MiB, it sends \<open>2 ^ 30\<close> parts of 8 MiB where
  \<open>ceil(S / P) = 2 ^ 30 + 1\<close>, and returns normally as well.
\<close>

theorem upload_drops_last_byte:
  "get_file_size (sized_files_os (2 ^ 53 + 1)) ''f'' = Inr (2 ^ 53 + 1) \<and>
   \<lceil>(of_int (2 ^ 53 + 1) / of_int (2 ^ 52) :: rat)\<rceil> = 3 \<and>
   snd (S3Transfer_upload_file
     (S3Transfer_init (object_store []) (Some (TransferConfig_init None None (Some (2 ^ 52))))
        (sized_files_os (2 ^ 53 + 1))) 0 ''f'' ''b'' ''k'' False None) = Inr () \<and>
   uploaded_parts (fst (S3Transfer_upload_file
     (S3Transfer_init (object_store []) (Some (TransferConfig_init None None (Some (2 ^ 52))))
        (sized_files_os (2 ^ 53 + 1))) 0 ''f'' ''b'' ''k'' False None)) =
     [(1, 0, 2 ^ 52), (2, 2 ^ 52, 2 ^ 52)] \<and>
   completed_parts (fst (S3Transfer_upload_file
     (S3Transfer_init (object_store []) (Some (TransferConfig_init None None (Some (2 ^ 52))))
        (sized_files_os (2 ^ 53 + 1))) 0 ''f'' ''b'' ''k'' False None)) =
     [[\<lparr>ETag = ''etag'', PartNumber = 1\<rparr>, \<lparr>ETag = ''etag'', PartNumber = 2\<rparr>]] \<and>
   (2 ^ 52 + 2 ^ 52 :: int) < 2 ^ 53 + 1 \<and>
   \<lceil>(of_int (2 ^ 53 + 1) / of_int (8 * MB) :: rat)\<rceil> = 2 ^ 30 + 1 \<and>
   snd (S3Transfer_upload_file
     (S3Transfer_init (object_store []) None (sized_files_os (2 ^ 53 + 1)))
     0 ''f'' ''b'' ''k'' False None) = Inr () \<and>
   uploaded_parts (fst (S3Transfer_upload_file
     (S3Transfer_init (object_store []) None (sized_files_os (2 ^ 53 + 1)))
     0 ''f'' ''b'' ''k'' False None)) = map (\<lambda>m. (m, 8 * MB * (m - 1), 8 * MB)) [1..2 ^ 30] \<and>
   (2 ^ 30 * (8 * MB) :: int) < 2 ^ 53 + 1"
proof -
  have size: "get_file_size (sized_files_os (2 ^ 53 + 1)) ''f'' = Inr (2 ^ 53 + 1)"
    by (simp add: get_file_size_def sized_files_os_def)
  have c3: "\<lceil>(of_int (2 ^ 53 + 1) / of_int (2 ^ 52) :: rat)\<rceil> = 3"
    unfolding ceiling_rat_div by simp
  have cd: "\<lceil>(of_int (2 ^ 53 + 1) / of_int (8 * MB) :: rat)\<rceil> = 2 ^ 30 + 1"
    unfolding ceiling_rat_div by (simp add: MB_def)
  have a: "S3Transfer_upload_file
     (S3Transfer_init (object_store []) (Some (TransferConfig_init None None (Some (2 ^ 52))))
        (sized_files_os (2 ^ 53 + 1))) 0 ''f'' ''b'' ''k'' False None =
     MultipartUploader_upload_file (object_store []) (TransferConfig_init None None (Some (2 ^ 52)))
       (sized_files_os (2 ^ 53 + 1)) 0 ''f'' ''b'' ''k'' False []"
    by (simp add: S3Transfer_upload_file_def S3Transfer_init_def get_file_size_def
        sized_files_os_def S3Transfer_multipart_upload_def TransferConfig_init_def MB_def)
  have d: "S3Transfer_upload_file
     (S3Transfer_init (object_store []) None (sized_files_os (2 ^ 53 + 1)))
     0 ''f'' ''b'' ''k'' False None =
     MultipartUploader_upload_file (object_store []) (TransferConfig_init None None None)
       (sized_files_os (2 ^ 53 + 1)) 0 ''f'' ''b'' ''k'' False []"
    by (simp add: S3Transfer_upload_file_def S3Transfer_init_def get_file_size_def
        sized_files_os_def S3Transfer_multipart_upload_def TransferConfig_init_def MB_def)
  show ?thesis
    unfolding a d sized_file_upload_2_52 sized_file_upload_default
    using size c3 cd by (simp add: MB_def)
qed

section \<open>Two workers and one file\<close>

lemma example_worker_steps:
  "map (worker_steps (object_store ''abcd'') False ''b'' ''k'' 2 2) [0..1] =
     [[Acquire 0, Seek 0, WriteBytes ''ab'', Release 0],
      [Acquire 1, Seek 2, WriteBytes ''cd'', Release 1]]"
  by (simp add: upto.simps worker_steps_def download_range_def Let_def object_store_def
      slice_range_def write_chunks.simps StreamReaderProgress_read_def stream_read_def
      buffer_size_def pwrite_steps_def)

lemma example_ranged_download:
  "fst (MultipartDownloaded_download_file (object_store ''abcd'')
     \<lparr>multipart_threshold = 4, max_concurrency = 2, multipart_chunksize = 2\<rparr> example_os 0
     ''b'' ''k'' ''out'' 4 False) =
   [OpenWrite ''out'', ThreadPoolExecutor 2,
    GetObject ''b'' ''k'' (Some (Bytes 0 (Some 1))), Pwrite ''ab'' 0,
    GetObject ''b'' ''k'' (Some (Bytes 2 None)), Pwrite ''cd'' 2]"
proof -
  have "num_parts 4 2 = Inr 2"
    using num_parts_exact_div[of 4 2] by simp
  then show ?thesis
    by (simp add: MultipartDownloaded_download_file_def Let_def open_wb_def example_os_def
        upto.simps download_range_def object_store_def slice_range_def write_chunks.simps
        StreamReaderProgress_read_def stream_read_def buffer_size_def)
qed

text \<open>
  Claim C2 fails on the code.  An object of four bytes is downloaded in two ranges by two
  workers.  Each range has a writer and so a lock of its own, and the second worker can
  take its lock and seek while the first is between its seek and its write: the first
  worker's bytes then land at the second worker's offset.  The schedule below ends with
  the file \<open>00 00 a b c d\<close>, where the writes one after the other give \<open>a b c d\<close>.  Had
  the two writers shared one lock, the workers could not follow this schedule.
\<close>

theorem writers_do_not_share_a_lock:
  "map (worker_steps (object_store ''abcd'') False ''b'' ''k'' 2 2) [0..1] =
     [[Acquire 0, Seek 0, WriteBytes ''ab'', Release 0],
      [Acquire 1, Seek 2, WriteBytes ''cd'', Release 1]] \<and>
   run_schedule [0, 0, 1, 1, 0, 0, 1, 1]
     (map (worker_steps (object_store ''abcd'') False ''b'' ''k'' 2 2) [0..1])
     \<lparr>sh_file = \<lparr>f_contents = [], f_pos = 0\<rparr>, sh_held = []\<rparr> =
     Some ([[], []],
       \<lparr>sh_file = \<lparr>f_contents = [CHR 0x00, CHR 0x00, CHR ''a'', CHR ''b'', CHR ''c'', CHR ''d''],
          f_pos = 6\<rparr>, sh_held = []\<rparr>) \<and>
   file_after (fst (MultipartDownloaded_download_file (object_store ''abcd'')
     \<lparr>multipart_threshold = 4, max_concurrency = 2, multipart_chunksize = 2\<rparr> example_os 0
     ''b'' ''k'' ''out'' 4 False)) = Some \<lparr>f_contents = ''abcd'', f_pos = 4\<rparr> \<and>
   run_schedule [0, 0, 1, 1, 0, 0, 1, 1]
     [pwrite_steps 0 ''ab'' 0, pwrite_steps 0 ''cd'' 2]
     \<lparr>sh_file = \<lparr>f_contents = [], f_pos = 0\<rparr>, sh_held = []\<rparr> = None"
proof -
  have sched: "run_schedule [0, 0, 1, 1, 0, 0, 1, 1]
     [[Acquire 0, Seek 0, WriteBytes ''ab'', Release 0],
      [Acquire 1, Seek 2, WriteBytes ''cd'', Release 1]]
     \<lparr>sh_file = \<lparr>f_contents = [], f_pos = 0\<rparr>, sh_held = []\<rparr> =
     Some ([[], []],
       \<lparr>sh_file = \<lparr>f_contents = [CHR 0x00, CHR 0x00, CHR ''a'', CHR ''b'', CHR ''c'', CHR ''d''],
          f_pos = 6\<rparr>, sh_held = []\<rparr>)"
    by (simp add: file_seek_def file_write_def Let_def numeral_2_eq_2)
  have seq: "file_after (fst (MultipartDownloaded_download_file (object_store ''abcd'')
     \<lparr>multipart_threshold = 4, max_concurrency = 2, multipart_chunksize = 2\<rparr> example_os 0
     ''b'' ''k'' ''out'' 4 False)) = Some \<lparr>f_contents = ''abcd'', f_pos = 4\<rparr>"
    unfolding example_ranged_download
    by (simp add: file_after_def ThreadSafeWriter_pwrite_def file_seek_def file_write_def
        Let_def)
  have shared: "run_schedule [0, 0, 1, 1, 0, 0, 1, 1]
     [pwrite_steps 0 ''ab'' 0, pwrite_steps 0 ''cd'' 2]
     \<lparr>sh_file = \<lparr>f_contents = [], f_pos = 0\<rparr>, sh_held = []\<rparr> = None"
    by (simp add: pwrite_steps_def file_seek_def)
  show ?thesis
    unfolding example_worker_steps using sched seq shared by simp
qed

section \<open>The writes of a ranged download\<close>

lemma written_offsets_append:
  "written_offsets (xs @ ys) = written_offsets xs @ written_offsets ys"
  by (induction xs rule: written_offsets.induct) auto

lemma requested_ranges_append:
  "requested_ranges (xs @ ys) = requested_ranges xs @ requested_ranges ys"
  by (induction xs rule: requested_ranges.induct) auto

lemma written_offsets_Progress: "written_offsets (map Progress calls) = []"
  by (induction calls) auto

lemma requested_ranges_Progress: "requested_ranges (map Progress calls) = []"
  by (induction calls) auto

lemma apply_event_Progress: "apply_event f (Progress n) = f"
  by (cases f) simp_all

lemma foldl_apply_event_Progress: "foldl apply_event f (map Progress calls) = f"
  by (induction calls arbitrary: f) (simp_all add: apply_event_Progress)

lemma pwrite_at_end:
  assumes "length (f_contents f) = nat i" "0 \<le> i" "chunk \<noteq> []"
  shows "\<exists>f'. apply_event (Some f) (Pwrite chunk i) = Some f' \<and>
     f_contents f' = f_contents f @ chunk"
  using assms
  by (simp add: ThreadSafeWriter_pwrite_def file_seek_def file_write_def Let_def)

lemma upto_split_lengths:
  fixes i a c :: int
  assumes "1 \<le> a" "0 \<le> c"
  shows "[i..i + (a + c) - 1] = [i..i + a - 1] @ [i + a..i + a + c - 1]"
proof -
  have "[i..i + a + c - 1] = [i..i + a - 1] @ [i + a - 1 + 1..i + a + c - 1]"
    using assms by (intro upto_split2) simp_all
  then show ?thesis by (simp add: add.assoc)
qed

lemma write_chunks_effect:
  assumes "0 \<le> i"
  shows "snd (write_chunks b i) = Inr () \<and>
    written_offsets (fst (write_chunks b i)) = [i..i + int (length (srp_stream b)) - 1] \<and>
    requested_ranges (fst (write_chunks b i)) = [] \<and>
    (\<forall>f. length (f_contents f) = nat i \<longrightarrow>
       (\<exists>f'. foldl apply_event (Some f) (fst (write_chunks b i)) = Some f' \<and>
          f_contents f' = f_contents f @ srp_stream b))"
  using assms
proof (induction b i rule: write_chunks.induct)
  case (1 b i)
  define chunk where "chunk = take (nat buffer_size) (srp_stream b)"
  define rest where "rest = drop (nat buffer_size) (srp_stream b)"
  define calls where "calls = (if srp_callback b then [int (length chunk)] else [])"
  define b' where "b' = b\<lparr>srp_stream := rest\<rparr>"
  have r: "StreamReaderProgress_read b buffer_size = (chunk, b', calls)"
    by (simp add: StreamReaderProgress_read_def stream_read_def buffer_size_def chunk_def
        rest_def calls_def b'_def)
  have s: "srp_stream b = chunk @ rest" by (simp add: chunk_def rest_def)
  show ?case
  proof (cases "chunk = []")
    case True
    then have e: "srp_stream b = []"
      by (auto simp: chunk_def buffer_size_def)
    have w: "write_chunks b i = (map Progress calls, Inr ())"
      using r True by (subst write_chunks.simps) simp
    show ?thesis
      by (simp add: w e written_offsets_Progress requested_ranges_Progress
          foldl_apply_event_Progress)
  next
    case False
    let ?j = "i + int (length chunk)"
    obtain es x where rec: "write_chunks b' ?j = (es, x)" by (cases "write_chunks b' ?j")
    have j: "0 \<le> ?j" using "1.prems" by simp
    have w: "write_chunks b i = (map Progress calls @ Pwrite chunk i # es, x)"
      using r False "1.prems" rec by (subst write_chunks.simps) simp
    have IH': "x = Inr () \<and> written_offsets es = [?j..?j + int (length rest) - 1] \<and>
      requested_ranges es = [] \<and>
      (\<forall>f. length (f_contents f) = nat ?j \<longrightarrow>
         (\<exists>f'. foldl apply_event (Some f) es = Some f' \<and> f_contents f' = f_contents f @ rest))"
      using "1.IH"[of chunk "(b', calls)" b' calls] r False "1.prems" j rec
      by (simp add: b'_def)
    have len: "1 \<le> int (length chunk)" using False by (cases chunk) simp_all
    have off: "[i..i + int (length (srp_stream b)) - 1] =
        [i..i + int (length chunk) - 1] @ [?j..?j + int (length rest) - 1]"
      using upto_split_lengths[of "int (length chunk)" "int (length rest)" i] len
      by (simp add: s)
    have fileq: "\<exists>f'. foldl apply_event (Some f) (map Progress calls @ Pwrite chunk i # es) = Some f'
        \<and> f_contents f' = f_contents f @ srp_stream b"
      if f: "length (f_contents f) = nat i" for f
    proof -
      obtain f1 where f1: "apply_event (Some f) (Pwrite chunk i) = Some f1"
        "f_contents f1 = f_contents f @ chunk"
        using pwrite_at_end[OF f "1.prems" False] by blast
      have "length (f_contents f1) = nat ?j"
        using f1(2) f "1.prems" by (simp add: nat_add_distrib)
      with IH' obtain f2 where "foldl apply_event (Some f1) es = Some f2"
        "f_contents f2 = f_contents f1 @ rest" by blast
      then show ?thesis
        using f1 by (simp add: foldl_apply_event_Progress s)
    qed
    show ?thesis
      unfolding w fst_conv snd_conv
      using IH' off fileq
      by (simp add: written_offsets_append written_offsets_Progress requested_ranges_append
          requested_ranges_Progress)
  qed
qed

lemma ceiling_quotient_enclosure:
  fixes S P :: int
  assumes "0 < P"
  defines "N \<equiv> \<lceil>(of_int S / of_int P :: rat)\<rceil>"
  shows "P * (N - 1) < S" "S \<le> P * N"
proof -
  have P: "(0::rat) < of_int P" using assms by simp
  have "of_int (N - 1) < (of_int S / of_int P :: rat)"
    unfolding N_def by (simp add: less_ceiling_iff[symmetric] del: of_int_diff)
  then have "of_int (N - 1) * (of_int P :: rat) < of_int S"
    using P by (simp add: less_divide_eq)
  then have "(of_int ((N - 1) * P) :: rat) < of_int S" by simp
  then have "(N - 1) * P < S" by (simp only: of_int_less_iff)
  then show "P * (N - 1) < S" by (simp add: mult.commute)
  have "(of_int S / of_int P :: rat) \<le> of_int N"
    unfolding N_def by (rule le_of_int_ceiling)
  then have "(of_int S :: rat) \<le> of_int N * of_int P"
    using P by (simp add: divide_le_eq)
  then have "(of_int S :: rat) \<le> of_int (N * P)" by simp
  then have "S \<le> N * P" by (simp only: of_int_le_iff)
  then show "S \<le> P * N" by (simp add: mult.commute)
qed

lemma upto_join:
  fixes a m :: int
  assumes "0 \<le> a" "a \<le> m"
  shows "[0..a - 1] @ [a..m - 1] = [0..m - 1]"
proof (cases "a = 0")
  case True
  then show ?thesis by simp
next
  case False
  have "[0..m - 1] = [0..a - 1] @ [a - 1 + 1..m - 1]"
    using assms False by (intro upto_split2) simp_all
  then show ?thesis by simp
qed

text \<open>
  The answer of the store to the request of range \<open>i\<close>: the bytes asked for when the range
  starts inside the object, a refusal when it starts at the end of the object or after it.
\<close>

lemma store_answers_range:
  fixes P N i :: int
  assumes "0 < P" "0 \<le> i" "i * P < int (length obj)"
  shows "get_object (object_store obj) bucket key
      (Some (Bytes (i * P) (if i = N - 1 then None else Some (i * P + P - 1)))) =
    Inr (if i = N - 1 then drop (nat (i * P)) obj else take (nat P) (drop (nat (i * P)) obj))"
proof -
  have a0: "0 \<le> i * P" using assms by simp
  have "nat (i * P + P - 1 + 1 - i * P) = nat P" by simp
  with a0 assms show ?thesis
    by (simp add: object_store_def slice_range_def)
qed

lemma store_refuses_range:
  fixes P N i :: int
  assumes "0 < P" "int (length obj) \<le> i * P"
  shows "get_object (object_store obj) bucket key
      (Some (Bytes (i * P) (if i = N - 1 then None else Some (i * P + P - 1)))) =
    Inl (ClientError ''InvalidRange'')"
  using assms by (simp add: object_store_def slice_range_def)

lemma download_range_effect:
  fixes P N i :: int and callback :: bool and bucket key obj :: string
  assumes "0 < P" "0 \<le> i" "i * P < int (length obj)"
  defines "r \<equiv> download_range (object_store obj) callback bucket key P N i"
  defines "body \<equiv>
    (if i = N - 1 then drop (nat (i * P)) obj else take (nat P) (drop (nat (i * P)) obj))"
  shows "snd r = Inr ()"
    and "requested_ranges (fst r) =
      [Bytes (i * P) (if i = N - 1 then None else Some (i * P + P - 1))]"
    and "written_offsets (fst r) = [i * P..i * P + int (length body) - 1]"
    and "length (f_contents f) = nat (i * P) \<Longrightarrow>
      \<exists>f'. foldl apply_event (Some f) (fst r) = Some f' \<and> f_contents f' = f_contents f @ body"
proof -
  let ?b = "\<lparr>srp_stream = body, srp_callback = callback\<rparr>"
  obtain es x where w: "write_chunks ?b (i * P) = (es, x)" by (cases "write_chunks ?b (i * P)")
  have a0: "0 \<le> i * P" using assms by simp
  note E = write_chunks_effect[OF a0, of ?b, unfolded w fst_conv snd_conv]
  have r: "r = (GetObject bucket key
      (Some (Bytes (i * P) (if i = N - 1 then None else Some (i * P + P - 1)))) # es, x)"
    unfolding r_def download_range_def Let_def
    using store_answers_range[where N = N and bucket = bucket and key = key, OF assms(1-3)] w
    by (simp add: body_def)
  show "snd r = Inr ()" using E by (simp add: r)
  show "requested_ranges (fst r) =
      [Bytes (i * P) (if i = N - 1 then None else Some (i * P + P - 1))]"
    using E by (simp add: r)
  show "written_offsets (fst r) = [i * P..i * P + int (length body) - 1]"
    using E by (simp add: r)
  show "\<exists>f'. foldl apply_event (Some f) (fst r) = Some f' \<and> f_contents f' = f_contents f @ body"
    if "length (f_contents f) = nat (i * P)"
    using E that by (simp add: r)
qed

lemma download_range_refused:
  fixes P N i :: int
  assumes "0 < P" "int (length obj) \<le> i * P"
  shows "download_range (object_store obj) callback bucket key P N i =
    ([GetObject bucket key
        (Some (Bytes (i * P) (if i = N - 1 then None else Some (i * P + P - 1))))],
     Inl (ClientError ''InvalidRange''))"
  unfolding download_range_def Let_def
  using store_refuses_range[where N = N and bucket = bucket and key = key, OF assms] by simp

section \<open>The ranges of a download\<close>

lemma download_ranges_requested:
  fixes P N :: int and callback :: bool and bucket key obj :: string
  assumes "0 < P"
  shows "\<forall>i \<in> set js. 0 \<le> i \<and> i * P < int (length obj) \<Longrightarrow>
    requested_ranges (concat (map
        (\<lambda>i. fst (download_range (object_store obj) callback bucket key P N i)) js)) =
      map (\<lambda>i. Bytes (i * P) (if i = N - 1 then None else Some (i * P + P - 1))) js"
proof (induction js)
  case Nil
  show ?case by simp
next
  case (Cons j js)
  from Cons.prems have j: "0 \<le> j" "j * P < int (length obj)" by simp_all
  note R = download_range_effect(2)[where callback = callback and bucket = bucket and key = key
      and N = N, OF assms j]
  from Cons show ?case by (simp add: requested_ranges_append R)
qed

text \<open>
  The ranges before the last one, run one after the other, write the first bytes of the
  object, each byte once and in the order of the offsets.
\<close>

lemma download_prefix:
  fixes P N :: int and callback :: bool and bucket key obj :: string
  assumes "0 < P" "P * (N - 1) < int (length obj)" "f_contents f0 = []"
  shows "int k \<le> N - 1 \<Longrightarrow>
    written_offsets (concat (map
        (\<lambda>i. fst (download_range (object_store obj) callback bucket key P N i)) [0..int k - 1])) =
      [0..int k * P - 1] \<and>
    (\<exists>f'. foldl apply_event (Some f0) (concat (map
        (\<lambda>i. fst (download_range (object_store obj) callback bucket key P N i)) [0..int k - 1])) =
        Some f' \<and> f_contents f' = take (nat (int k * P)) obj)"
proof (induction k)
  case 0
  show ?case using assms(3) by simp
next
  case (Suc k)
  let ?L = "int (length obj)"
  let ?i = "int k"
  let ?task = "\<lambda>i. fst (download_range (object_store obj) callback bucket key P N i)"
  let ?E = "concat (map ?task [0..?i - 1])"
  let ?body = "take (nat P) (drop (nat (?i * P)) obj)"
  from Suc.prems have i: "0 \<le> ?i" "?i + 1 \<le> N - 1" by simp_all
  then have kN: "int k \<le> N - 1" and last: "?i \<noteq> N - 1" by simp_all
  note IH = Suc.IH[OF kN]
  have "(?i + 1) * P \<le> (N - 1) * P" using i assms(1) by (intro mult_right_mono) simp_all
  then have next_in: "?i * P + P < ?L" using assms(2) by (simp add: algebra_simps)
  then have kL: "?i * P < ?L" using assms(1) by simp
  have k0: "0 \<le> ?i * P" using assms(1) by simp
  note R = download_range_effect[where callback = callback and bucket = bucket and key = key
      and N = N, OF assms(1) i(1) kL, unfolded if_not_P[OF last]]
  have up: "[0..int (Suc k) - 1] = [0..?i - 1] @ [?i]"
    using upto_rec2[of 0 ?i] by simp
  have E': "concat (map ?task [0..int (Suc k) - 1]) = ?E @ ?task ?i"
    unfolding up by simp
  have "nat (?i * P) + nat P \<le> length obj"
    using next_in k0 assms(1) by linarith
  then have "length ?body = nat P" by simp
  then have lenb: "int (length ?body) = P"
    using assms(1) by simp
  have "written_offsets (concat (map ?task [0..int (Suc k) - 1])) =
      [0..?i * P - 1] @ [?i * P..?i * P + P - 1]"
    unfolding E' written_offsets_append R(3) lenb using IH by simp
  also have "\<dots> = [0..?i * P + P - 1]"
    using k0 assms(1) by (intro upto_join) simp_all
  also have "?i * P + P = int (Suc k) * P" by (simp add: algebra_simps)
  finally have offsets: "written_offsets (concat (map ?task [0..int (Suc k) - 1])) =
      [0..int (Suc k) * P - 1]" .
  from IH obtain f1 where f1: "foldl apply_event (Some f0) ?E = Some f1"
    "f_contents f1 = take (nat (?i * P)) obj" by blast
  have "length (f_contents f1) = nat (?i * P)"
    using f1(2) kL k0 by simp
  from R(4)[OF this] obtain f2 where f2: "foldl apply_event (Some f1) (?task ?i) = Some f2"
    "f_contents f2 = f_contents f1 @ ?body" by blast
  have "nat (int (Suc k) * P) = nat (?i * P) + nat P"
    using k0 assms(1) by (simp add: algebra_simps nat_add_distrib)
  then have "f_contents f2 = take (nat (int (Suc k) * P)) obj"
    using f2(2) f1(2) by (simp add: take_add)
  with f1 f2 have fileq: "\<exists>f'. foldl apply_event (Some f0)
      (concat (map ?task [0..int (Suc k) - 1])) = Some f' \<and>
      f_contents f' = take (nat (int (Suc k) * P)) obj"
    unfolding E' by simp
  show ?case using offsets fileq by blast
qed

text \<open>
  All the ranges of a download whose last range starts inside the object: the bytes of
  the object are written, each once, and the file ends as a copy of the object.
\<close>

lemma download_all_ranges:
  fixes P N :: int and callback :: bool and bucket key obj :: string
  assumes "0 < P" "P * (N - 1) < int (length obj)" "1 \<le> N" "f_contents f0 = []"
  shows "written_offsets (concat (map
        (\<lambda>i. fst (download_range (object_store obj) callback bucket key P N i)) [0..N - 1])) =
      [0..int (length obj) - 1]"
    and "\<exists>f'. foldl apply_event (Some f0) (concat (map
        (\<lambda>i. fst (download_range (object_store obj) callback bucket key P N i)) [0..N - 1])) =
        Some f' \<and> f_contents f' = obj"
proof -
  let ?L = "int (length obj)"
  let ?task = "\<lambda>i. fst (download_range (object_store obj) callback bucket key P N i)"
  define k where "k = nat (N - 1)"
  have k: "int k = N - 1" using assms(3) by (simp add: k_def)
  let ?E = "concat (map ?task [0..int k - 1])"
  note Pre = download_prefix[where k = k and callback = callback and bucket = bucket
      and key = key, OF assms(1,2,4), unfolded k, OF order_refl]
  have a: "0 \<le> (N - 1) * P" "(N - 1) * P < ?L"
    using assms(1,2,3) by (simp_all add: mult.commute)
  have i0: "0 \<le> N - 1" using assms(3) by simp
  note R = download_range_effect[where callback = callback and bucket = bucket and key = key
      and N = N, OF assms(1) i0 a(2), unfolded if_P[OF refl]]
  have up: "[0..N - 1] = [0..N - 1 - 1] @ [N - 1]"
    using upto_rec2[of 0 "N - 1"] assms(3) by simp
  have E': "concat (map ?task [0..N - 1]) = concat (map ?task [0..N - 1 - 1]) @ ?task (N - 1)"
    by (subst up) simp
  have lenb: "(N - 1) * P + int (length (drop (nat ((N - 1) * P)) obj)) = ?L"
    using a by simp
  have "written_offsets (concat (map ?task [0..N - 1])) =
      [0..(N - 1) * P - 1] @ [(N - 1) * P..?L - 1]"
    unfolding E' written_offsets_append R(3) lenb using Pre by simp
  also have "\<dots> = [0..?L - 1]"
    using a by (intro upto_join) simp_all
  finally show "written_offsets (concat (map ?task [0..N - 1])) = [0..?L - 1]" .
  from Pre obtain f1 where f1: "foldl apply_event (Some f0) (concat (map ?task [0..N - 1 - 1])) =
      Some f1" "f_contents f1 = take (nat ((N - 1) * P)) obj" by blast
  have "length (f_contents f1) = nat ((N - 1) * P)"
    using f1(2) a by simp
  from R(4)[OF this] obtain f2 where f2: "foldl apply_event (Some f1) (?task (N - 1)) = Some f2"
    "f_contents f2 = f_contents f1 @ drop (nat ((N - 1) * P)) obj" by blast
  from f2(2) f1(2) have "f_contents f2 = obj" by simp
  with f1 f2 show "\<exists>f'. foldl apply_event (Some f0) (concat (map ?task [0..N - 1])) = Some f' \<and>
      f_contents f' = obj"
    unfolding E' by simp
qed

lemma apply_event_pool: "apply_event f (ThreadPoolExecutor w) = f"
  by (cases f) simp_all

text \<open>
  A ranged download from a store that holds the object, when the last of its \<open>N\<close> ranges
  starts inside the object: it requests the \<open>N\<close> ranges, all closed but the last, writes
  every byte offset of the object once, and leaves a copy of the object.
\<close>

lemma ranged_download_effect:
  fixes obj :: string and config :: TransferConfig
  assumes "num_parts (int (length obj)) (multipart_chunksize config) = Inr N"
    and "0 < multipart_chunksize config"
    and "multipart_chunksize config * (N - 1) < int (length obj)"
    and "1 \<le> N \<or> obj = []"
    and "0 < max_concurrency config" "writable os filename"
  shows "snd (MultipartDownloaded_download_file (object_store obj) config os overrun bucket key
      filename (int (length obj)) callback) = Inr ()"
    and "requested_ranges (fst (MultipartDownloaded_download_file (object_store obj) config os
      overrun bucket key filename (int (length obj)) callback)) =
      map (\<lambda>i. Bytes (i * multipart_chunksize config)
        (if i = N - 1 then None
         else Some (i * multipart_chunksize config + multipart_chunksize config - 1))) [0..N - 1]"
    and "written_offsets (fst (MultipartDownloaded_download_file (object_store obj) config os
      overrun bucket key filename (int (length obj)) callback)) = [0..int (length obj) - 1]"
    and "map_option f_contents (file_after (fst (MultipartDownloaded_download_file
      (object_store obj) config os overrun bucket key filename (int (length obj)) callback))) =
      Some obj"
proof -
  let ?L = "int (length obj)"
  let ?P = "multipart_chunksize config"
  let ?fn = "download_range (object_store obj) callback bucket key ?P N"
  let ?E = "concat (map (\<lambda>i. fst (?fn i)) [0..N - 1])"
  let ?f0 = "\<lparr>f_contents = [], f_pos = 0\<rparr>"
  have inside: "0 \<le> i \<and> i * ?P < ?L" if "i \<in> set [0..N - 1]" for i
  proof -
    from that have i: "0 \<le> i" "i \<le> N - 1" by simp_all
    then have "i * ?P \<le> (N - 1) * ?P" using assms(2) by (intro mult_right_mono) simp_all
    with assms(3) i show ?thesis by (simp add: mult.commute)
  qed
  have "\<forall>i \<in> set [0..N - 1]. snd (?fn i) = Inr ()"
    using download_range_effect(1)[where callback = callback and bucket = bucket and key = key
        and N = N and obj = obj, OF assms(2)] inside by blast
  then have ex: "executor_map ?fn [0..N - 1] overrun = (?E, Inr (map (\<lambda>i. ()) [0..N - 1]))"
    by (rule executor_map_ok)
  have r: "MultipartDownloaded_download_file (object_store obj) config os overrun bucket key
      filename ?L callback =
      (OpenWrite filename # ThreadPoolExecutor (max_concurrency config) # ?E, Inr ())"
    using assms(1,5,6) ex
    by (simp add: MultipartDownloaded_download_file_def Let_def open_wb_def)
  show "snd (MultipartDownloaded_download_file (object_store obj) config os overrun bucket key
      filename ?L callback) = Inr ()"
    unfolding r by simp
  have "requested_ranges ?E =
      map (\<lambda>i. Bytes (i * ?P) (if i = N - 1 then None else Some (i * ?P + ?P - 1))) [0..N - 1]"
    using inside by (intro download_ranges_requested[OF assms(2)]) blast
  then show "requested_ranges (fst (MultipartDownloaded_download_file (object_store obj) config
      os overrun bucket key filename ?L callback)) =
      map (\<lambda>i. Bytes (i * ?P) (if i = N - 1 then None else Some (i * ?P + ?P - 1))) [0..N - 1]"
    unfolding r by simp
  have all: "written_offsets ?E = [0..?L - 1] \<and>
      (\<exists>f'. foldl apply_event (Some ?f0) ?E = Some f' \<and> f_contents f' = obj)"
  proof (cases "1 \<le> N")
    case True
    have f0: "f_contents ?f0 = []" by simp
    from download_all_ranges[where callback = callback and bucket = bucket and key = key,
        OF assms(2,3) True f0]
    show ?thesis by blast
  next
    case False
    with assms(4) have "obj = []" by simp
    moreover from False have "[0..N - 1] = []" by simp
    ultimately show ?thesis by simp
  qed
  then show "written_offsets (fst (MultipartDownloaded_download_file (object_store obj) config
      os overrun bucket key filename ?L callback)) = [0..?L - 1]"
    unfolding r by simp
  from all obtain f' where "foldl apply_event (Some ?f0) ?E = Some f'" "f_contents f' = obj"
    by blast
  then show "map_option f_contents (file_after (fst (MultipartDownloaded_download_file
      (object_store obj) config os overrun bucket key filename ?L callback))) = Some obj"
    unfolding r by (simp add: file_after_def apply_event_pool)
qed

text \<open>
  For an object of \<open>L\<close> bytes and parts of \<open>P\<close> bytes, with \<open>L < 2 ^ 53\<close> and
  \<open>0 < P < 2 ^ 53\<close>, the division is exact enough: the download requests
  \<open>N = ceil(L / P)\<close> ranges, range \<open>i\<close> being \<open>bytes=i*P-(i*P+P-1)\<close> for every \<open>i\<close> but the
  last and \<open>bytes=(N-1)*P-\<close> for the last; the offsets written are \<open>0\<close> to \<open>L - 1\<close>, each
  once, and the file ends as a copy of the object.
\<close>

lemma ranged_download_below_2_53:
  fixes obj :: string and config :: TransferConfig
  defines "N \<equiv> \<lceil>(of_int (int (length obj)) / of_int (multipart_chunksize config) :: rat)\<rceil>"
  assumes "int (length obj) < 2 ^ 53"
    and "0 < multipart_chunksize config" "multipart_chunksize config < 2 ^ 53"
    and "0 < max_concurrency config" "writable os filename"
  shows "snd (MultipartDownloaded_download_file (object_store obj) config os overrun bucket key
      filename (int (length obj)) callback) = Inr ()"
    and "requested_ranges (fst (MultipartDownloaded_download_file (object_store obj) config os
      overrun bucket key filename (int (length obj)) callback)) =
      map (\<lambda>i. Bytes (i * multipart_chunksize config)
        (if i = N - 1 then None
         else Some (i * multipart_chunksize config + multipart_chunksize config - 1))) [0..N - 1]"
    and "written_offsets (fst (MultipartDownloaded_download_file (object_store obj) config os
      overrun bucket key filename (int (length obj)) callback)) = [0..int (length obj) - 1]"
    and "map_option f_contents (file_after (fst (MultipartDownloaded_download_file
      (object_store obj) config os overrun bucket key filename (int (length obj)) callback))) =
      Some obj"
proof -
  let ?L = "int (length obj)"
  let ?P = "multipart_chunksize config"
  have L0: "0 \<le> ?L" by simp
  have np: "num_parts ?L ?P = Inr N"
    unfolding N_def by (rule num_parts_exact[OF L0 assms(2,3,4)])
  have enc: "?P * (N - 1) < ?L"
    unfolding N_def by (rule ceiling_quotient_enclosure(1)[OF assms(3)])
  have one: "1 \<le> N \<or> obj = []"
  proof (cases "obj = []")
    case False
    then have "0 < ?L" by simp
    then have "1 \<le> N" unfolding N_def by (rule ceiling_quotient_bounds(1)[OF _ assms(3)])
    then show ?thesis by simp
  qed simp
  note E = ranged_download_effect[where overrun = overrun and bucket = bucket and key = key
      and callback = callback, OF np assms(3) enc one assms(5,6)]
  show "snd (MultipartDownloaded_download_file (object_store obj) config os overrun bucket key
      filename ?L callback) = Inr ()"
    by (rule E(1))
  show "requested_ranges (fst (MultipartDownloaded_download_file (object_store obj) config os
      overrun bucket key filename ?L callback)) =
      map (\<lambda>i. Bytes (i * ?P) (if i = N - 1 then None else Some (i * ?P + ?P - 1))) [0..N - 1]"
    by (rule E(2))
  show "written_offsets (fst (MultipartDownloaded_download_file (object_store obj) config os
      overrun bucket key filename ?L callback)) = [0..?L - 1]"
    by (rule E(3))
  show "map_option f_contents (file_after (fst (MultipartDownloaded_download_file
      (object_store obj) config os overrun bucket key filename ?L callback))) = Some obj"
    by (rule E(4))
qed

section \<open>A range that starts after the object\<close>

lemma executor_map_last_fails:
  assumes "snd (fn y) = Inl e"
  shows "\<forall>x \<in> set xs. snd (fn x) = Inr (g x) \<Longrightarrow>
    executor_map fn (xs @ [y]) k = (concat (map (\<lambda>x. fst (fn x)) (xs @ [y])), Inl e)"
proof (induction xs)
  case Nil
  obtain es where "fn y = (es, Inl e)" using assms by (cases "fn y") auto
  then show ?case by simp
next
  case (Cons a xs)
  obtain ea where fa: "fn a = (ea, Inr (g a))" using Cons.prems by (cases "fn a") auto
  with Cons show ?case by simp
qed

text \<open>
  When the number of ranges is one too many, so that the last range starts at the end of
  the object or after it, the store refuses the last request and the download fails,
  after it has requested every range.
\<close>

lemma ranged_download_overshoot:
  fixes obj :: string and config :: TransferConfig
  assumes "num_parts (int (length obj)) (multipart_chunksize config) = Inr N"
    and "0 < multipart_chunksize config" "1 \<le> N"
    and "multipart_chunksize config * (N - 2) < int (length obj)"
    and "int (length obj) \<le> multipart_chunksize config * (N - 1)"
    and "0 < max_concurrency config" "writable os filename"
  shows "snd (MultipartDownloaded_download_file (object_store obj) config os overrun bucket key
      filename (int (length obj)) callback) = Inl (ClientError ''InvalidRange'')"
    and "requested_ranges (fst (MultipartDownloaded_download_file (object_store obj) config os
      overrun bucket key filename (int (length obj)) callback)) =
      map (\<lambda>i. Bytes (i * multipart_chunksize config)
        (if i = N - 1 then None
         else Some (i * multipart_chunksize config + multipart_chunksize config - 1))) [0..N - 1]"
proof -
  let ?L = "int (length obj)"
  let ?P = "multipart_chunksize config"
  let ?fn = "download_range (object_store obj) callback bucket key ?P N"
  let ?range = "\<lambda>i. Bytes (i * ?P) (if i = N - 1 then None else Some (i * ?P + ?P - 1))"
  have up: "[0..N - 1] = [0..N - 2] @ [N - 1]"
    using upto_rec2[of 0 "N - 1"] assms(3) by simp
  have inside: "0 \<le> i \<and> i * ?P < ?L" if "i \<in> set [0..N - 2]" for i
  proof -
    from that have i: "0 \<le> i" "i \<le> N - 2" by simp_all
    then have "i * ?P \<le> (N - 2) * ?P" using assms(2) by (intro mult_right_mono) simp_all
    with assms(4) i show ?thesis by (simp add: mult.commute)
  qed
  have ok: "\<forall>i \<in> set [0..N - 2]. snd (?fn i) = Inr ()"
    using download_range_effect(1)[where callback = callback and bucket = bucket and key = key
        and N = N and obj = obj, OF assms(2)] inside by blast
  have after: "?L \<le> (N - 1) * ?P" using assms(5) by (simp add: mult.commute)
  note last = download_range_refused[where callback = callback and bucket = bucket
      and key = key and N = N, OF assms(2) after]
  have "snd (?fn (N - 1)) = Inl (ClientError ''InvalidRange'')"
    unfolding last by simp
  from executor_map_last_fails[where g = "\<lambda>i. ()", OF this ok]
  have ex: "executor_map ?fn [0..N - 1] overrun =
      (concat (map (\<lambda>i. fst (?fn i)) [0..N - 1]), Inl (ClientError ''InvalidRange''))"
    unfolding up .
  have r: "MultipartDownloaded_download_file (object_store obj) config os overrun bucket key
      filename ?L callback =
      (OpenWrite filename # ThreadPoolExecutor (max_concurrency config) #
         concat (map (\<lambda>i. fst (?fn i)) [0..N - 1]), Inl (ClientError ''InvalidRange''))"
    using assms(1,6,7) ex
    by (simp add: MultipartDownloaded_download_file_def Let_def open_wb_def)
  show "snd (MultipartDownloaded_download_file (object_store obj) config os overrun bucket key
      filename ?L callback) = Inl (ClientError ''InvalidRange'')"
    unfolding r by simp
  have pre: "requested_ranges (concat (map (\<lambda>i. fst (?fn i)) [0..N - 2])) =
      map ?range [0..N - 2]"
    using inside by (intro download_ranges_requested[OF assms(2)]) blast
  have "requested_ranges (concat (map (\<lambda>i. fst (?fn i)) [0..N - 1])) = map ?range [0..N - 1]"
    unfolding up using pre by (simp add: requested_ranges_append last)
  then show "requested_ranges (fst (MultipartDownloaded_download_file (object_store obj) config
      os overrun bucket key filename ?L callback)) = map ?range [0..N - 1]"
    unfolding r by simp
qed

section \<open>Sizes that binary64 rounds up\<close>

lemma round_half_even_tie_odd: "odd n \<Longrightarrow> round_half_even (of_int n + 1 / 2) = n + 1"
proof -
  have "\<lfloor>(of_int n + 1 / 2 :: rat)\<rfloor> = n" by (rule floor_unique) simp_all
  then show "odd n \<Longrightarrow> round_half_even (of_int n + 1 / 2) = n + 1"
    by (simp add: round_half_even_def)
qed

lemma round_half_even_nearest:
  assumes "of_int n - 1 / 2 < y" "y < of_int n + 1 / 2"
  shows "round_half_even y = n"
proof -
  have "\<bar>of_int (round_half_even y) - y\<bar> \<le> 1 / 2" by (rule round_half_even_err)
  with assms have "of_int (round_half_even y) < (of_int n :: rat) + 1"
    and "(of_int n :: rat) - 1 < of_int (round_half_even y)" by linarith+
  then have "(of_int (round_half_even y) :: rat) < of_int (n + 1)"
    and "(of_int (n - 1) :: rat) < of_int (round_half_even y)" by simp_all
  then have "round_half_even y < n + 1" "n - 1 < round_half_even y"
    by (simp_all only: of_int_less_iff)
  then show ?thesis by simp
qed

lemma float_round_2_53_3: "float_round (2 ^ 53 + 3) = 2 ^ 53 + 4"
proof -
  let ?x = "2 ^ 53 + 3 :: rat"
  have e: "ilog2 ?x = 53"
    by (rule ilog2_unique) simp_all
  have x: "0 < ?x" by simp
  have x': "- 1022 \<le> ilog2 ?x" unfolding e by simp
  have "?x / power_int 2 (ilog2 ?x - 52) = of_int (2 ^ 52 + 1) + 1 / 2"
    unfolding e by simp
  moreover have "round_half_even ((of_int (2 ^ 52 + 1) :: rat) + 1 / 2) = 2 ^ 52 + 1 + 1"
    by (rule round_half_even_tie_odd) simp
  ultimately have "round_half_even (?x / power_int 2 (ilog2 ?x - 52)) = 2 ^ 52 + 1 + 1"
    by (simp only:)
  then have r: "round_half_even (?x / power_int 2 (ilog2 ?x - 52)) = 2 ^ 52 + 2"
    by simp
  show ?thesis
    unfolding float_round_pos[OF x x'] r unfolding e by simp
qed

lemma float_round_quotient_2_53_3:
  "float_round (9007199254740996 / 1801439850948199) =
     5629499534213121 / 1125899906842624"
proof -
  let ?x = "9007199254740996 / 1801439850948199 :: rat"
  have e: "ilog2 ?x = 2"
    by (rule ilog2_unique) simp_all
  have x: "0 < ?x" by simp
  have x': "- 1022 \<le> ilog2 ?x" unfolding e by simp
  have u: "(power_int 2 (2 - 52) :: rat) = 1 / 1125899906842624"
    by (simp add: power_int_def power_one_over)
  have r: "round_half_even (?x / power_int 2 (ilog2 ?x - 52)) = 5629499534213121"
    unfolding e u by (rule round_half_even_nearest) simp_all
  show ?thesis
    unfolding float_round_pos[OF x x'] r unfolding e u by simp
qed

lemma num_parts_2_53_3: "num_parts (2 ^ 53 + 3) 1801439850948199 = Inr 6"
proof -
  have p: "py_float 1801439850948199 = Inr (of_int 1801439850948199)"
    by (rule py_float_exact) simp_all
  have "float_round (of_int (2 ^ 53 + 3)) = 2 ^ 53 + 4"
    using float_round_2_53_3 by simp
  then have s: "py_float (2 ^ 53 + 3) = Inr (2 ^ 53 + 4)"
    unfolding py_float_def Let_def by simp
  have c: "\<lceil>(5629499534213121 / 1125899906842624 :: rat)\<rceil> = 6"
    by (rule ceiling_unique) simp_all
  show ?thesis
    unfolding num_parts_def p s float_truediv_def
    by (simp add: float_round_quotient_2_53_3 c math_ceil_def)
qed

lemma download_file_ranged:
  assumes "s3_client t = object_store obj" "multipart_threshold (s3_config t) \<le> int (length obj)"
  shows "S3Transfer_download_file t overrun bucket key filename callback =
    (HeadObject bucket key #
       fst (MultipartDownloaded_download_file (object_store obj) (s3_config t) (s3_osutil t)
         overrun bucket key filename (int (length obj)) callback),
     snd (MultipartDownloaded_download_file (object_store obj) (s3_config t) (s3_osutil t)
         overrun bucket key filename (int (length obj)) callback))"
proof -
  have "head_object (s3_client t) bucket key = Inr (int (length obj))"
    unfolding assms(1) by (simp add: object_store_def)
  with assms show ?thesis
    by (simp add: S3Transfer_download_file_def S3Transfer_ranged_download_def
        split: prod.splits)
qed

text \<open>
  Claim C4 fails on the code.  The number of ranges is computed in binary64,
  \<^verbatim>\<open>int(math.ceil(size / float(part_size)))\<close>.  An object of \<open>2 ^ 53 + 1\<close> bytes has a size
  that binary64 rounds to \<open>2 ^ 53\<close>: with parts of \<open>2 ^ 52\<close> bytes the download makes two
  ranged requests where \<open>ceil(L / P) = 3\<close>, and its open-ended range starts at \<open>P\<close>, not at
  \<open>2 * P\<close>.  An object of \<open>2 ^ 53 + 3\<close> bytes has a size that binary64 rounds to
  \<open>2 ^ 53 + 4\<close>: with parts of a fifth of the object, \<open>1801439850948199\<close> bytes, the quotient
  rounds to the float after \<open>5\<close> and the download makes six ranged requests where
  \<open>ceil(L / P) = 5\<close>; the sixth starts at the end of the object, the store refuses it, and
  the download fails.
\<close>

theorem ranged_download_miscounts_ranges:
  "head_object (sized_object_store (2 ^ 53 + 1)) ''b'' ''k'' = Inr (2 ^ 53 + 1) \<and>
   \<lceil>(of_int (2 ^ 53 + 1) / of_int (2 ^ 52) :: rat)\<rceil> = 3 \<and>
   snd (S3Transfer_download_file
     (S3Transfer_init (sized_object_store (2 ^ 53 + 1))
        (Some (TransferConfig_init None None (Some (2 ^ 52)))) example_os)
     0 ''b'' ''k'' ''out'' False) = Inr () \<and>
   requested_ranges (fst (S3Transfer_download_file
     (S3Transfer_init (sized_object_store (2 ^ 53 + 1))
        (Some (TransferConfig_init None None (Some (2 ^ 52)))) example_os)
     0 ''b'' ''k'' ''out'' False)) =
     [Bytes 0 (Some (2 ^ 52 - 1)), Bytes (2 ^ 52) None] \<and>
   head_object (sized_object_store (2 ^ 53 + 3)) ''b'' ''k'' = Inr (2 ^ 53 + 3) \<and>
   \<lceil>(of_int (2 ^ 53 + 3) / of_int 1801439850948199 :: rat)\<rceil> = 5 \<and>
   snd (S3Transfer_download_file
     (S3Transfer_init (sized_object_store (2 ^ 53 + 3))
        (Some (TransferConfig_init None None (Some 1801439850948199))) example_os)
     0 ''b'' ''k'' ''out'' False) = Inl (ClientError ''InvalidRange'') \<and>
   requested_ranges (fst (S3Transfer_download_file
     (S3Transfer_init (sized_object_store (2 ^ 53 + 3))
        (Some (TransferConfig_init None None (Some 1801439850948199))) example_os)
     0 ''b'' ''k'' ''out'' False)) =
     [Bytes 0 (Some 1801439850948198),
      Bytes 1801439850948199 (Some 3602879701896397),
      Bytes 3602879701896398 (Some 5404319552844596),
      Bytes 5404319552844597 (Some 7205759403792795),
      Bytes 7205759403792796 (Some 9007199254740994),
      Bytes 9007199254740995 None] \<and>
   (9007199254740995 :: int) = 2 ^ 53 + 3"
proof -
  let ?o1 = "replicate (2 ^ 53 + 1) (CHR ''x'')"
  let ?c1 = "TransferConfig_init None None (Some (2 ^ 52))"
  let ?t1 = "S3Transfer_init (object_store ?o1) (Some ?c1) example_os"
  let ?o3 = "replicate (2 ^ 53 + 3) (CHR ''x'')"
  let ?c3 = "TransferConfig_init None None (Some 1801439850948199)"
  let ?t3 = "S3Transfer_init (object_store ?o3) (Some ?c3) example_os"
  have len1: "int (length ?o1) = 2 ^ 53 + 1" and len3: "int (length ?o3) = 2 ^ 53 + 3"
    by simp_all
  have c1: "multipart_chunksize ?c1 = 2 ^ 52" "max_concurrency ?c1 = 1"
    "multipart_threshold ?c1 = 8 * MB"
    and c3: "multipart_chunksize ?c3 = 1801439850948199" "max_concurrency ?c3 = 1"
    "multipart_threshold ?c3 = 8 * MB"
    by (simp_all add: TransferConfig_init_def)
  have t1: "s3_client ?t1 = object_store ?o1" "s3_config ?t1 = ?c1" "s3_osutil ?t1 = example_os"
    and t3: "s3_client ?t3 = object_store ?o3" "s3_config ?t3 = ?c3" "s3_osutil ?t3 = example_os"
    by (simp_all add: S3Transfer_init_def)
  have w: "writable example_os ''out''" by (simp add: example_os_def)
  have h1: "head_object (sized_object_store (2 ^ 53 + 1)) ''b'' ''k'' = Inr (2 ^ 53 + 1)"
    and h3: "head_object (sized_object_store (2 ^ 53 + 3)) ''b'' ''k'' = Inr (2 ^ 53 + 3)"
    by (simp_all add: sized_object_store_def object_store_def)
  have ceil1: "\<lceil>(of_int (2 ^ 53 + 1) / of_int (2 ^ 52) :: rat)\<rceil> = 3"
    and ceil3: "\<lceil>(of_int (2 ^ 53 + 3) / of_int 1801439850948199 :: rat)\<rceil> = 5"
    unfolding ceiling_rat_div by simp_all
  have th1: "multipart_threshold (s3_config ?t1) \<le> int (length ?o1)"
    unfolding t1 c1 len1 by (simp add: MB_def)
  have th3: "multipart_threshold (s3_config ?t3) \<le> int (length ?o3)"
    unfolding t3 c3 len3 by (simp add: MB_def)
  note f1 = download_file_ranged[where overrun = 0 and bucket = "''b''" and key = "''k''"
      and filename = "''out''" and callback = False, OF t1(1) th1, unfolded t1]
  note f3 = download_file_ranged[where overrun = 0 and bucket = "''b''" and key = "''k''"
      and filename = "''out''" and callback = False, OF t3(1) th3, unfolded t3]
  have np1: "num_parts (int (length ?o1)) (multipart_chunksize ?c1) = Inr 2"
    unfolding len1 c1 by (rule num_parts_2_53_1)
  have np3: "num_parts (int (length ?o3)) (multipart_chunksize ?c3) = Inr 6"
    unfolding len3 c3 by (rule num_parts_2_53_3)
  have a1: "0 < multipart_chunksize ?c1"
    "multipart_chunksize ?c1 * (2 - 1) < int (length ?o1)" "1 \<le> (2::int) \<or> ?o1 = []"
    "0 < max_concurrency ?c1"
    unfolding len1 c1 by simp_all
  have a3: "0 < multipart_chunksize ?c3" "1 \<le> (6::int)"
    "multipart_chunksize ?c3 * (6 - 2) < int (length ?o3)"
    "int (length ?o3) \<le> multipart_chunksize ?c3 * (6 - 1)"
    "0 < max_concurrency ?c3"
    unfolding len3 c3 by simp_all
  note E1 = ranged_download_effect[where overrun = 0 and bucket = "''b''" and key = "''k''"
      and callback = False, OF np1 a1 w]
  note E3 = ranged_download_overshoot[where overrun = 0 and bucket = "''b''" and key = "''k''"
      and callback = False, OF np3 a3 w]
  have r1: "requested_ranges (fst (MultipartDownloaded_download_file (object_store ?o1) ?c1
      example_os 0 ''b'' ''k'' ''out'' (int (length ?o1)) False)) =
      [Bytes 0 (Some (2 ^ 52 - 1)), Bytes (2 ^ 52) None]"
    unfolding E1(2) c1 by (simp add: upto.simps)
  have r3: "requested_ranges (fst (MultipartDownloaded_download_file (object_store ?o3) ?c3
      example_os 0 ''b'' ''k'' ''out'' (int (length ?o3)) False)) =
      [Bytes 0 (Some 1801439850948198),
       Bytes 1801439850948199 (Some 3602879701896397),
       Bytes 3602879701896398 (Some 5404319552844596),
       Bytes 5404319552844597 (Some 7205759403792795),
       Bytes 7205759403792796 (Some 9007199254740994),
       Bytes 9007199254740995 None]"
    unfolding E3(2) c3 by (simp add: upto.simps)
  show ?thesis
    unfolding h1 h3 ceil1 ceil3
    unfolding sized_object_store_def f1 f3 fst_conv snd_conv requested_ranges.simps
      E1(1) E3(1) r1 r3
    by simp
qed

end
